theory Spec2Isabelle
  imports Main
begin

section \<open>Data model\<close>

text \<open>
  The \<^verbatim>\<open>location\<close> object of a geolocation response. A sub-field that is missing from
  the response is \<open>None\<close>.
\<close>

record location =
  country_name_official :: "string option"
  state_prov :: "string option"
  city :: "string option"
  district :: "string option"
  country_code2 :: "string option"

text \<open>
  The five enrichment columns of table \<^verbatim>\<open>id_users\<close>. The same shape serves for the
  objects \<^verbatim>\<open>updates\<close>, \<^verbatim>\<open>finalUpdates\<close> and \<^verbatim>\<open>currentUser\<close> of \<^verbatim>\<open>enrichUser\<close>: a key
  that is absent from the object (or a column that is SQL null) is \<open>None\<close>.
\<close>

record enrichment =
  country_name_official :: "string option"
  state :: "string option"
  city :: "string option"
  district :: "string option"
  country_code :: "string option"

text \<open>A row of table \<^verbatim>\<open>id_users\<close>; \<^verbatim>\<open>user_id\<close> is its unique key.\<close>

record id_users_row = enrichment +
  user_id :: string
  email :: string
  ip_address :: "string option"
  identifier_type :: string
  created_at :: string
  updated_at :: string
  ingested_at :: int

text \<open>The row of table \<^verbatim>\<open>id_sync_state\<close> kept under \<^verbatim>\<open>CHECKPOINT_KEY\<close>.\<close>

record id_sync_state_row =
  "value" :: string
  updated_at :: int

text \<open>
  The store: the user table in the order in which range queries see it, and the
  checkpoint slot (\<open>None\<close>: no row under the checkpoint key).
\<close>

record store =
  id_users :: "id_users_row list"
  id_sync_state :: "id_sync_state_row option"

text \<open>A user as the upstream feed returns it.\<close>

record api_user =
  user_id :: string
  email :: string
  ipAddress :: "string option"
  identifierType :: string
  createdAt :: string
  updatedAt :: string

record pagination =
  hasNextPage :: "bool option"

record api_data =
  users :: "api_user list option"
  pagination :: "pagination option"

text \<open>The body of a feed response (\<^verbatim>\<open>response.data\<close>).\<close>

record api_body =
  status :: int
  message :: string
  data :: "api_data option"

text \<open>
  What \<^verbatim>\<open>axios.get\<close> does on the feed: it resolves with a response (whose body may be
  null), or rejects with an error that carries the remote's response, or only the request
  (nothing came back), or neither (the request never left the process).
\<close>

datatype axios_outcome =
    Response "api_body option"
  | ResponseError int string
  | RequestError
  | SetupError string

record geo_body =
  location :: "location option"

datatype geo_outcome =
    GeoResponse "geo_body option"
  | GeoResponseError int string
  | GeoRequestError
  | GeoSetupError string

record db_error =
  code :: string

datatype error =
    ApiStatus int string
  | ApiError int string
  | NetworkError
  | LocalError string
  | TypeError
  | StoreError db_error
  | DataError string

text \<open>The error object as the \<^verbatim>\<open>catch\<close> block of \<^verbatim>\<open>fetchUsersPage\<close> sees it.\<close>

record caught =
  response :: "(int \<times> string) option"
  request :: bool
  thrown :: error

section \<open>The environment and the state of a service process\<close>

text \<open>
  Everything outside the process is an oracle, indexed by the number of calls of its kind
  made so far: the feed's reply to the k-th request (for the page requested), how long
  that request takes, by how much the k-th timer overshoots, whether the k-th store
  operation fails and how long it takes, and the geolocation API's reply to the k-th lookup.
\<close>

record env =
  http_reply :: "nat \<Rightarrow> nat \<Rightarrow> axios_outcome"
  http_latency :: "nat \<Rightarrow> nat"
  timer_slack :: "nat \<Rightarrow> nat"
  db_fault :: "nat \<Rightarrow> db_error option"
  db_latency :: "nat \<Rightarrow> nat"
  geo_reply :: "nat \<Rightarrow> string \<Rightarrow> geo_outcome"

text \<open>
  The log of what the process did to the outside: each feed request with the time of the
  call and whether it reached the network, each timestamp the rate limiter recorded, and
  each store operation with its payload and whether it succeeded.
\<close>

datatype event =
    HttpGet nat int bool
  | RecordApiCall int
  | SelectCheckpoint
  | UpsertUsers "api_user list" bool
  | UpsertCheckpoint string bool
  | SelectNeedingEnrichment nat nat "nat option"
  | GeoLookup string
  | SelectUser string
  | UpdateUser string enrichment bool

record world =
  clock :: int
  apiCallTimestamps :: "int list"
  db :: store
  n_http :: nat
  n_timer :: nat
  n_db :: nat
  trace :: "event list"

definition emit :: "event \<Rightarrow> world \<Rightarrow> world" where
  "emit ev w = w\<lparr>trace := trace w @ [ev]\<rparr>"

text \<open>\<^verbatim>\<open>await new Promise(resolve => setTimeout(resolve, ms))\<close>: at least \<open>ms\<close> pass.\<close>

definition sleep :: "env \<Rightarrow> int \<Rightarrow> world \<Rightarrow> world" where
  "sleep env ms w =
     w\<lparr>clock := clock w + max 0 ms + int (timer_slack env (n_timer w)),
       n_timer := Suc (n_timer w)\<rparr>"

section \<open>Rate limiter (sync.js)\<close>

definition RATE_LIMIT_MAX_REQUESTS :: nat where
  "RATE_LIMIT_MAX_REQUESTS = 3"

definition RATE_LIMIT_WINDOW_MS :: int where
  "RATE_LIMIT_WINDOW_MS = 10000"

text \<open>
  \<^verbatim>\<open>while (apiCallTimestamps.length > 0 && now - apiCallTimestamps[0] >= RATE_LIMIT_WINDOW_MS)
    apiCallTimestamps.shift();\<close>
\<close>

fun shiftExpired :: "int \<Rightarrow> int list \<Rightarrow> int list" where
  "shiftExpired now [] = []"
| "shiftExpired now (t # ts) =
     (if now - t \<ge> RATE_LIMIT_WINDOW_MS then shiftExpired now ts else t # ts)"

definition waitForRateLimit :: "env \<Rightarrow> world \<Rightarrow> world" where
  "waitForRateLimit env w =
     (let now = clock w;
          w1 = w\<lparr>apiCallTimestamps := shiftExpired now (apiCallTimestamps w)\<rparr>
      in if length (apiCallTimestamps w1) \<ge> RATE_LIMIT_MAX_REQUESTS then
           (let oldestCallTime = apiCallTimestamps w1 ! 0;
                waitTime = RATE_LIMIT_WINDOW_MS - (now - oldestCallTime) + 100;
                w2 = sleep env waitTime w1;
                newNow = clock w2
            in w2\<lparr>apiCallTimestamps := shiftExpired newNow (apiCallTimestamps w2)\<rparr>)
         else w1)"

definition recordApiCall :: "world \<Rightarrow> world" where
  "recordApiCall w =
     emit (RecordApiCall (clock w)) (w\<lparr>apiCallTimestamps := apiCallTimestamps w @ [clock w]\<rparr>)"

section \<open>Page fetcher (sync.js)\<close>

definition reaches_network :: "axios_outcome \<Rightarrow> bool" where
  "reaches_network out = (case out of SetupError m \<Rightarrow> False | _ \<Rightarrow> True)"

definition plain :: "error \<Rightarrow> caught" where
  "plain e = \<lparr>response = None, request = False, thrown = e\<rparr>"

text \<open>The \<^verbatim>\<open>try\<close> block of \<^verbatim>\<open>fetchUsersPage\<close>: what it returns, or what it throws.\<close>

definition fetchUsersPage_try :: "env \<Rightarrow> nat \<Rightarrow> world \<Rightarrow> (caught + api_data option) \<times> world" where
  "fetchUsersPage_try env page w =
     (let k = n_http w;
          out = http_reply env k page;
          w1 = emit (HttpGet page (clock w) (reaches_network out)) w;
          w2 = w1\<lparr>clock := clock w1 + int (http_latency env k), n_http := Suc k\<rparr>
      in case out of
           Response body \<Rightarrow>
             (let w3 = recordApiCall w2
              in case body of
                   None \<Rightarrow> (Inl (plain TypeError), w3)
                 | Some b \<Rightarrow>
                     if status b \<noteq> 1 then (Inl (plain (ApiStatus (status b) (message b))), w3)
                     else (Inr (data b), w3))
         | ResponseError st txt \<Rightarrow>
             (Inl \<lparr>response = Some (st, txt), request = True, thrown = ApiError st txt\<rparr>, w2)
         | RequestError \<Rightarrow>
             (Inl \<lparr>response = None, request = True, thrown = NetworkError\<rparr>, w2)
         | SetupError m \<Rightarrow>
             (Inl \<lparr>response = None, request = False, thrown = LocalError m\<rparr>, w2))"

text \<open>The \<^verbatim>\<open>catch\<close> block of \<^verbatim>\<open>fetchUsersPage\<close>.\<close>

definition fetchUsersPage_catch :: "caught \<Rightarrow> world \<Rightarrow> error \<times> world" where
  "fetchUsersPage_catch err w =
     (let w1 = (if response err \<noteq> None \<or> request err then recordApiCall w else w)
      in case response err of
           Some (st, txt) \<Rightarrow> (ApiError st txt, w1)
         | None \<Rightarrow> if request err then (NetworkError, w1) else (thrown err, w1))"

definition fetchUsersPage :: "env \<Rightarrow> nat \<Rightarrow> world \<Rightarrow> (error + api_data option) \<times> world" where
  "fetchUsersPage env page w =
     (case fetchUsersPage_try env page (waitForRateLimit env w) of
        (Inr d, w1) \<Rightarrow> (Inr d, w1)
      | (Inl err, w1) \<Rightarrow> (case fetchUsersPage_catch err w1 of (e, w2) \<Rightarrow> (Inl e, w2)))"

section \<open>Observing the rate limiter\<close>

text \<open>
  The times at which requests that reached the network were issued, and the timestamps the
  rate limiter recorded, in the order of the log.
\<close>

fun admissions :: "event list \<Rightarrow> int list" where
  "admissions [] = []"
| "admissions (HttpGet p t reached # evs) = (if reached then t # admissions evs else admissions evs)"
| "admissions (_ # evs) = admissions evs"

fun recorded :: "event list \<Rightarrow> int list" where
  "recorded [] = []"
| "recorded (RecordApiCall t # evs) = t # recorded evs"
| "recorded (_ # evs) = recorded evs"

text \<open>
  A sequence of sequential calls of \<^verbatim>\<open>fetchUsersPage\<close> on the same timestamp list. Before
  each call any time may pass (other work of the run, the wait for the next scheduled
  run); the clock never goes back.
\<close>

fun fetchSequence :: "env \<Rightarrow> (nat \<times> nat) list \<Rightarrow> world \<Rightarrow> world" where
  "fetchSequence env [] w = w"
| "fetchSequence env ((gap, page) # calls) w =
     fetchSequence env calls (snd (fetchUsersPage env page (w\<lparr>clock := clock w + int gap\<rparr>)))"

text \<open>
  The state in which a process starts: \<^verbatim>\<open>const apiCallTimestamps = []\<close>, nothing done yet.
\<close>

definition process_start :: "int \<Rightarrow> store \<Rightarrow> world" where
  "process_start t0 st =
     \<lparr>clock = t0, apiCallTimestamps = [], db = st, n_http = 0, n_timer = 0, n_db = 0, trace = []\<rparr>"

text \<open>
  What holds of the timestamp list between calls: every request that reached the network
  has its timestamp, recorded no earlier than the request was issued; the list holds the
  latest of these timestamps, and those dropped from it are at least a window old; the
  list has at most three entries; and of any four consecutive requests issued so far, the
  last was issued at least a window after the first.
\<close>

definition limiter_inv :: "world \<Rightarrow> bool" where
  "limiter_inv w \<longleftrightarrow>
     list_all2 (\<le>) (admissions (trace w)) (recorded (trace w)) \<and>
     (\<exists>pre. recorded (trace w) = pre @ apiCallTimestamps w \<and>
            (\<forall>c\<in>set pre. c + RATE_LIMIT_WINDOW_MS \<le> clock w)) \<and>
     length (apiCallTimestamps w) \<le> RATE_LIMIT_MAX_REQUESTS \<and>
     (\<forall>i. i + 3 < length (admissions (trace w)) \<longrightarrow>
          admissions (trace w) ! i + RATE_LIMIT_WINDOW_MS \<le> admissions (trace w) ! (i + 3))"

section \<open>Store access (supabase.js)\<close>

text \<open>
  JavaScript truthiness of a value that is a string, null or undefined: \<^verbatim>\<open>!v\<close> holds for
  null, undefined and the empty string.
\<close>

definition truthy :: "string option \<Rightarrow> bool" where
  "truthy v = (case v of None \<Rightarrow> False | Some s \<Rightarrow> s \<noteq> [])"

text \<open>
  One round trip to the store: the oracle says whether this operation fails, and time
  passes. An operation that fails leaves the store as it was.
\<close>

definition store_call :: "env \<Rightarrow> world \<Rightarrow> db_error option \<times> world" where
  "store_call env w =
     (db_fault env (n_db w),
      w\<lparr>clock := clock w + int (db_latency env (n_db w)), n_db := Suc (n_db w)\<rparr>)"

text \<open>
  \<^verbatim>\<open>.select('value').eq('key', CHECKPOINT_KEY).single()\<close> answers with error code PGRST116
  when there is no row.
\<close>

definition getCheckpoint :: "env \<Rightarrow> world \<Rightarrow> (error + string option) \<times> world" where
  "getCheckpoint env w =
     (case store_call env (emit SelectCheckpoint w) of
        (fault, w1) \<Rightarrow>
          (let result =
                 (case fault of
                    Some e \<Rightarrow> Inl e
                  | None \<Rightarrow>
                      (case id_sync_state (db w1) of
                         None \<Rightarrow> Inl \<lparr>code = ''PGRST116''\<rparr>
                       | Some row \<Rightarrow> Inr row))
           in case result of
                Inl e \<Rightarrow>
                  if code e = ''PGRST116'' then (Inr None, w1) else (Inl (StoreError e), w1)
              | Inr row \<Rightarrow> (Inr (if truthy (Some (value row)) then Some (value row) else None), w1)))"

definition updateCheckpoint :: "env \<Rightarrow> string \<Rightarrow> world \<Rightarrow> (error + unit) \<times> world" where
  "updateCheckpoint env userId w =
     (let row = \<lparr>value = userId, updated_at = clock w\<rparr>
      in case store_call env w of
           (Some e, w1) \<Rightarrow> (Inl (StoreError e), emit (UpsertCheckpoint userId False) w1)
         | (None, w1) \<Rightarrow>
             (Inr (), emit (UpsertCheckpoint userId True)
                        (w1\<lparr>db := (db w1)\<lparr>id_sync_state := Some row\<rparr>\<rparr>)))"

text \<open>The row \<^verbatim>\<open>insertUsers\<close> builds from a feed user; the enrichment columns are not set.\<close>

definition toDbUser :: "int \<Rightarrow> api_user \<Rightarrow> id_users_row" where
  "toDbUser now user =
     \<lparr>enrichment.country_name_official = None, state = None, enrichment.city = None,
      enrichment.district = None, country_code = None,
      id_users_row.user_id = user_id user,
      id_users_row.email = email user,
      ip_address = (if truthy (ipAddress user) then ipAddress user else None),
      identifier_type = identifierType user,
      created_at = createdAt user,
      id_users_row.updated_at = updatedAt user,
      ingested_at = now\<rparr>"

text \<open>
  \<^verbatim>\<open>.upsert(dbUsers, { onConflict: 'user_id', ignoreDuplicates: true })\<close>: a row whose key
  is already in the table is left out, the others are added.
\<close>

fun upsert_ignoreDuplicates :: "id_users_row list \<Rightarrow> id_users_row list \<Rightarrow> id_users_row list" where
  "upsert_ignoreDuplicates tbl [] = tbl"
| "upsert_ignoreDuplicates tbl (r # rs) =
     upsert_ignoreDuplicates
       (if id_users_row.user_id r \<in> set (map id_users_row.user_id tbl) then tbl else tbl @ [r]) rs"

text \<open>The \<^verbatim>\<open>try\<close> block of \<^verbatim>\<open>insertUsers\<close>, for a list that is not empty.\<close>

definition insertUsers_try :: "env \<Rightarrow> api_user list \<Rightarrow> world \<Rightarrow> (db_error + nat) \<times> world" where
  "insertUsers_try env us w =
     (let dbUsers = map (toDbUser (clock w)) us
      in case store_call env w of
           (Some e, w1) \<Rightarrow> (Inl e, emit (UpsertUsers us False) w1)
         | (None, w1) \<Rightarrow>
             (Inr (length dbUsers),
              emit (UpsertUsers us True)
                (w1\<lparr>db := (db w1)\<lparr>id_users := upsert_ignoreDuplicates (id_users (db w1)) dbUsers\<rparr>\<rparr>)))"

definition insertUsers :: "env \<Rightarrow> api_user list option \<Rightarrow> world \<Rightarrow> (error + nat) \<times> world" where
  "insertUsers env arg w =
     (case arg of
        None \<Rightarrow> (Inr 0, w)
      | Some us \<Rightarrow>
          if length us = 0 then (Inr 0, w)
          else (case insertUsers_try env us w of
                  (Inr n, w1) \<Rightarrow> (Inr n, w1)
                | (Inl e, w1) \<Rightarrow> (Inr 0, w1)))"

section \<open>Sync orchestrator (sync.js)\<close>

text \<open>\<^verbatim>\<open>data.users || []\<close> and \<^verbatim>\<open>data.pagination?.hasNextPage || false\<close>.\<close>

definition usersOf :: "api_data \<Rightarrow> api_user list" where
  "usersOf d = (case users d of None \<Rightarrow> [] | Some us \<Rightarrow> us)"

definition hasNextPageOf :: "api_data \<Rightarrow> bool" where
  "hasNextPageOf d =
     (case pagination d of
        None \<Rightarrow> False
      | Some p \<Rightarrow> (case hasNextPage p of None \<Rightarrow> False | Some b \<Rightarrow> b))"

text \<open>
  The loop of \<^verbatim>\<open>fetchAllPages\<close>. It runs for as long as the feed reports a next page, so
  it takes fuel: \<open>None\<close> means that the loop did not end within the fuel given. Reading
  \<^verbatim>\<open>data.users\<close> of an undefined \<^verbatim>\<open>data\<close> is a TypeError.
\<close>

fun fetchAllPages_loop ::
  "nat \<Rightarrow> env \<Rightarrow> nat \<Rightarrow> api_user list \<Rightarrow> world \<Rightarrow> ((error + api_user list) \<times> world) option" where
  "fetchAllPages_loop 0 env currentPage allUsers w = None"
| "fetchAllPages_loop (Suc fuel) env currentPage allUsers w =
     (case fetchUsersPage env currentPage w of
        (Inl e, w1) \<Rightarrow> Some (Inl e, w1)
      | (Inr None, w1) \<Rightarrow> Some (Inl TypeError, w1)
      | (Inr (Some d), w1) \<Rightarrow>
          (let allUsers1 = (if length (usersOf d) > 0 then allUsers @ usersOf d else allUsers)
           in if hasNextPageOf d
              then fetchAllPages_loop fuel env (currentPage + 1) allUsers1 w1
              else Some (Inr allUsers1, w1)))"

definition fetchAllPages :: "nat \<Rightarrow> env \<Rightarrow> world \<Rightarrow> ((error + api_user list) \<times> world) option" where
  "fetchAllPages fuel env w = fetchAllPages_loop fuel env 1 [] w"

text \<open>\<^verbatim>\<open>users.findIndex(p)\<close>, with \<open>None\<close> for -1.\<close>

fun findIndex :: "('a \<Rightarrow> bool) \<Rightarrow> 'a list \<Rightarrow> nat option" where
  "findIndex p [] = None"
| "findIndex p (x # xs) = (if p x then Some 0 else map_option Suc (findIndex p xs))"

text \<open>
  The loop of \<^verbatim>\<open>fetchIncrementalPages\<close>; it returns \<^verbatim>\<open>firstUserIdFromPage1\<close> and
  \<^verbatim>\<open>totalInserted\<close> as they stand when the loop is left.
\<close>

fun fetchIncrementalPages_loop ::
  "nat \<Rightarrow> env \<Rightarrow> string \<Rightarrow> nat \<Rightarrow> string option \<Rightarrow> nat \<Rightarrow> world \<Rightarrow>
     ((error + string option \<times> nat) \<times> world) option" where
  "fetchIncrementalPages_loop 0 env checkpointUserId currentPage firstUserIdFromPage1 totalInserted w = None"
| "fetchIncrementalPages_loop (Suc fuel) env checkpointUserId currentPage firstUserIdFromPage1 totalInserted w =
     (case fetchUsersPage env currentPage w of
        (Inl e, w1) \<Rightarrow> Some (Inl e, w1)
      | (Inr None, w1) \<Rightarrow> Some (Inl TypeError, w1)
      | (Inr (Some d), w1) \<Rightarrow>
          (case usersOf d of
             [] \<Rightarrow> Some (Inr (firstUserIdFromPage1, totalInserted), w1)
           | u # rest \<Rightarrow>
               (let first1 = (if currentPage = 1 then Some (user_id u) else firstUserIdFromPage1)
                in case findIndex (\<lambda>user. user_id user = checkpointUserId) (u # rest) of
                     Some checkpointIndex \<Rightarrow>
                       (let usersToInsert = take checkpointIndex (u # rest)
                        in if length usersToInsert > 0
                           then (case insertUsers env (Some usersToInsert) w1 of
                                   (Inl e, w2) \<Rightarrow> Some (Inl e, w2)
                                 | (Inr inserted, w2) \<Rightarrow>
                                     Some (Inr (first1, totalInserted + inserted), w2))
                           else Some (Inr (first1, totalInserted), w1))
                   | None \<Rightarrow>
                       (case insertUsers env (Some (u # rest)) w1 of
                          (Inl e, w2) \<Rightarrow> Some (Inl e, w2)
                        | (Inr inserted, w2) \<Rightarrow>
                            if hasNextPageOf d
                            then fetchIncrementalPages_loop fuel env checkpointUserId
                                   (currentPage + 1) first1 (totalInserted + inserted) w2
                            else Some (Inr (first1, totalInserted + inserted), w2)))))"

text \<open>What follows the loop: page 1 is fetched when the loop left no usable first id.\<close>

definition determineCheckpoint :: "env \<Rightarrow> string option \<Rightarrow> world \<Rightarrow> (error + string) \<times> world" where
  "determineCheckpoint env firstUserIdFromPage1 w =
     (case (if \<not> truthy firstUserIdFromPage1
            then (case fetchUsersPage env 1 w of
                    (Inl e, w1) \<Rightarrow> (Inl e, w1)
                  | (Inr None, w1) \<Rightarrow> (Inl TypeError, w1)
                  | (Inr (Some d), w1) \<Rightarrow>
                      (case usersOf d of
                         [] \<Rightarrow> (Inr firstUserIdFromPage1, w1)
                       | u # rest \<Rightarrow> (Inr (Some (user_id u)), w1)))
            else (Inr firstUserIdFromPage1, w)) of
        (Inl e, w1) \<Rightarrow> (Inl e, w1)
      | (Inr first1, w1) \<Rightarrow>
          (case first1 of
             None \<Rightarrow> (Inl (DataError ''Could not determine checkpoint - page 1 is empty''), w1)
           | Some uid \<Rightarrow>
               if uid = [] then (Inl (DataError ''Could not determine checkpoint - page 1 is empty''), w1)
               else (Inr uid, w1)))"

definition fetchIncrementalPages ::
  "nat \<Rightarrow> env \<Rightarrow> string \<Rightarrow> world \<Rightarrow> ((error + string) \<times> world) option" where
  "fetchIncrementalPages fuel env checkpointUserId w =
     (case fetchIncrementalPages_loop fuel env checkpointUserId 1 None 0 w of
        None \<Rightarrow> None
      | Some (Inl e, w1) \<Rightarrow> Some (Inl e, w1)
      | Some (Inr (firstUserIdFromPage1, totalInserted), w1) \<Rightarrow>
          Some (determineCheckpoint env firstUserIdFromPage1 w1))"

text \<open>The full-sync branch of \<^verbatim>\<open>syncUsers\<close>, from the bulk insert on.\<close>

definition insertAllAndSetCheckpoint :: "env \<Rightarrow> api_user list \<Rightarrow> world \<Rightarrow> (error + unit) \<times> world" where
  "insertAllAndSetCheckpoint env allUsers w =
     (case insertUsers env (Some allUsers) w of
        (Inl e, w1) \<Rightarrow> (Inl e, w1)
      | (Inr inserted, w1) \<Rightarrow>
          (case fetchUsersPage env 1 w1 of
             (Inl e, w2) \<Rightarrow> (Inl e, w2)
           | (Inr None, w2) \<Rightarrow> (Inl TypeError, w2)
           | (Inr (Some firstPageData), w2) \<Rightarrow>
               (case usersOf firstPageData of
                  [] \<Rightarrow> (Inl (DataError ''Page 1 is empty - cannot set checkpoint''), w2)
                | u # rest \<Rightarrow> updateCheckpoint env (user_id u) w2)))"

definition fullSync :: "nat \<Rightarrow> env \<Rightarrow> world \<Rightarrow> ((error + unit) \<times> world) option" where
  "fullSync fuel env w =
     (case fetchAllPages fuel env w of
        None \<Rightarrow> None
      | Some (Inl e, w1) \<Rightarrow> Some (Inl e, w1)
      | Some (Inr allUsers, w1) \<Rightarrow>
          if length allUsers > 0 then Some (insertAllAndSetCheckpoint env allUsers w1)
          else Some (Inr (), w1))"

definition incrementalSync :: "nat \<Rightarrow> env \<Rightarrow> string \<Rightarrow> world \<Rightarrow> ((error + unit) \<times> world) option" where
  "incrementalSync fuel env checkpoint w =
     (case fetchIncrementalPages fuel env checkpoint w of
        None \<Rightarrow> None
      | Some (Inl e, w1) \<Rightarrow> Some (Inl e, w1)
      | Some (Inr newCheckpoint, w1) \<Rightarrow> Some (updateCheckpoint env newCheckpoint w1))"

text \<open>\<^verbatim>\<open>syncUsers\<close>: \<^verbatim>\<open>if (!checkpoint)\<close> the full sync, else the incremental one.\<close>

definition syncUsers :: "nat \<Rightarrow> env \<Rightarrow> world \<Rightarrow> ((error + unit) \<times> world) option" where
  "syncUsers fuel env w =
     (case getCheckpoint env w of
        (Inl e, w1) \<Rightarrow> Some (Inl e, w1)
      | (Inr checkpoint, w1) \<Rightarrow>
          (case checkpoint of
             None \<Rightarrow> fullSync fuel env w1
           | Some c \<Rightarrow> if c = [] then fullSync fuel env w1 else incrementalSync fuel env c w1))"

section \<open>Observing a run\<close>

text \<open>
  What a reply of the feed amounts to for the orchestrator when the request succeeds with
  application status 1 and a \<^verbatim>\<open>data\<close> object: the users of the page and the
  next-page flag.
\<close>

definition page_of :: "axios_outcome \<Rightarrow> (api_user list \<times> bool) option" where
  "page_of out =
     (case out of
        Response (Some b) \<Rightarrow>
          (if status b = 1
           then (case data b of None \<Rightarrow> None | Some d \<Rightarrow> Some (usersOf d, hasNextPageOf d))
           else None)
      | _ \<Rightarrow> None)"

text \<open>The events a run added to the log.\<close>

definition new_events :: "world \<Rightarrow> world \<Rightarrow> event list" where
  "new_events w w' = drop (length (trace w)) (trace w')"

text \<open>The pages requested, and the payloads handed to the store by \<^verbatim>\<open>insertUsers\<close>.\<close>

fun fetched_pages :: "event list \<Rightarrow> nat list" where
  "fetched_pages [] = []"
| "fetched_pages (HttpGet p t reached # evs) = p # fetched_pages evs"
| "fetched_pages (_ # evs) = fetched_pages evs"

fun upserts :: "event list \<Rightarrow> api_user list list" where
  "upserts [] = []"
| "upserts (UpsertUsers us ok # evs) = us # upserts evs"
| "upserts (_ # evs) = upserts evs"

fun is_checkpoint_write :: "event \<Rightarrow> bool" where
  "is_checkpoint_write (UpsertCheckpoint uid ok) = True"
| "is_checkpoint_write _ = False"

text \<open>The log without its times: the rate limiter's records dropped, request times zeroed.\<close>

fun outline :: "event list \<Rightarrow> event list" where
  "outline [] = []"
| "outline (HttpGet p t reached # evs) = HttpGet p 0 reached # outline evs"
| "outline (RecordApiCall t # evs) = outline evs"
| "outline (ev # evs) = ev # outline evs"

text \<open>
  A stretch of a run that leaves the checkpoint alone: the checkpoint slot is as before and
  no event added to the log is a checkpoint write.
\<close>

definition keeps_checkpoint :: "world \<Rightarrow> world \<Rightarrow> bool" where
  "keeps_checkpoint w w' \<longleftrightarrow>
     id_sync_state (db w') = id_sync_state (db w) \<and>
     (\<exists>evs. trace w' = trace w @ evs \<and> (\<forall>ev\<in>set evs. \<not> is_checkpoint_write ev))"

section \<open>Address classification (enrichment.js)\<close>

text \<open>
  The regular expressions of \<^verbatim>\<open>privateRanges\<close> are all anchored at the start and built
  from literal characters, character classes, sequence and alternation. \<open>rx_match r s\<close>
  lists what can remain of \<open>s\<close> after a match of \<open>r\<close> at its start, and
  \<^verbatim>\<open>/^r/.test(s)\<close> holds when there is such a match.
\<close>

datatype regex =
    Eps
  | Chr char
  | OneOf string
  | Seq regex regex
  | Alt regex regex

fun rx_match :: "regex \<Rightarrow> string \<Rightarrow> string list" where
  "rx_match Eps s = [s]"
| "rx_match (Chr c) s = (case s of [] \<Rightarrow> [] | x # xs \<Rightarrow> if x = c then [xs] else [])"
| "rx_match (OneOf cs) s = (case s of [] \<Rightarrow> [] | x # xs \<Rightarrow> if x \<in> set cs then [xs] else [])"
| "rx_match (Seq a b) s = concat (map (rx_match b) (rx_match a s))"
| "rx_match (Alt a b) s = rx_match a s @ rx_match b s"

definition rx_test :: "regex \<Rightarrow> string \<Rightarrow> bool" where
  "rx_test r s = (rx_match r s \<noteq> [])"

fun lit :: "string \<Rightarrow> regex" where
  "lit [] = Eps"
| "lit (c # cs) = Seq (Chr c) (lit cs)"

text \<open>
  \<^verbatim>\<open>/^10\./, /^172\.(1[6-9]|2[0-9]|3[0-1])\./, /^192\.168\./, /^127\./, /^169\.254\./, /^0\./\<close>
\<close>

definition privateRanges :: "regex list" where
  "privateRanges =
     [lit ''10.'',
      Seq (lit ''172.'')
        (Seq (Alt (Seq (Chr CHR ''1'') (OneOf ''6789''))
                (Alt (Seq (Chr CHR ''2'') (OneOf ''0123456789''))
                     (Seq (Chr CHR ''3'') (OneOf ''01''))))
             (Chr CHR ''.'')),
      lit ''192.168.'',
      lit ''127.'',
      lit ''169.254.'',
      lit ''0.'']"

definition isPrivateIP :: "string option \<Rightarrow> bool" where
  "isPrivateIP ip =
     (case ip of
        None \<Rightarrow> True
      | Some s \<Rightarrow> if s = [] then True else list_ex (\<lambda>range. rx_test range s) privateRanges)"

text \<open>
  An IPv4 address in dotted decimal notation, each octet written without leading zeros
  (\<open>octet\<close> is the decimal numeral of a number below 1000).
\<close>

definition digit :: "nat \<Rightarrow> char" where
  "digit n = ''0123456789'' ! (n mod 10)"

definition octet :: "nat \<Rightarrow> string" where
  "octet n =
     (if n < 10 then [digit n]
      else if n < 100 then [digit (n div 10), digit n]
      else [digit (n div 100), digit (n div 10), digit n])"

definition dotted :: "nat \<Rightarrow> nat \<Rightarrow> nat \<Rightarrow> nat \<Rightarrow> string" where
  "dotted a b c d = octet a @ ''.'' @ octet b @ ''.'' @ octet c @ ''.'' @ octet d"

section \<open>Enrichment (enrichment.js)\<close>

text \<open>
  The selector. The query asks for the rows whose \<^verbatim>\<open>ip_address\<close> is not null and which
  have a null among the five enrichment columns, from \<^verbatim>\<open>offset\<close> to
  \<^verbatim>\<open>offset + batchSize - 1\<close>. The model returns whole rows; the code reads only
  \<^verbatim>\<open>user_id\<close> and \<^verbatim>\<open>ip_address\<close> of them.
\<close>

definition needs_enrichment :: "id_users_row \<Rightarrow> bool" where
  "needs_enrichment r \<longleftrightarrow>
     ip_address r \<noteq> None \<and>
     (enrichment.country_name_official r = None \<or> state r = None \<or> enrichment.city r = None \<or>
      enrichment.district r = None \<or> country_code r = None)"

definition getUsersNeedingEnrichment ::
  "env \<Rightarrow> nat \<Rightarrow> nat \<Rightarrow> world \<Rightarrow> (error + id_users_row list) \<times> world" where
  "getUsersNeedingEnrichment env batchSize offset w =
     (case store_call env w of
        (Some e, w1) \<Rightarrow>
          (Inl (StoreError e), emit (SelectNeedingEnrichment offset batchSize None) w1)
      | (None, w1) \<Rightarrow>
          (let rows = take batchSize (drop offset (filter needs_enrichment (id_users (db w1))))
           in (Inr rows, emit (SelectNeedingEnrichment offset batchSize (Some (length rows))) w1)))"

text \<open>
  \<^verbatim>\<open>fetchGeolocationData\<close> catches every error of the lookup and returns null for it, so
  it has no error result. The requests of the enrichment process are counted by \<open>n_http\<close>.
\<close>

definition fetchGeolocationData :: "env \<Rightarrow> string option \<Rightarrow> world \<Rightarrow> geo_body option \<times> world" where
  "fetchGeolocationData env ip w =
     (if \<not> truthy ip \<or> isPrivateIP ip then (None, w)
      else
        (let k = n_http w;
             w1 = (emit (GeoLookup (the ip)) w)
                    \<lparr>clock := clock w + int (http_latency env k), n_http := Suc k\<rparr>
         in case geo_reply env k (the ip) of
              GeoResponse body \<Rightarrow> (body, w1)
            | GeoResponseError st txt \<Rightarrow> (None, w1)
            | GeoRequestError \<Rightarrow> (None, w1)
            | GeoSetupError m \<Rightarrow> (None, w1)))"

text \<open>\<^verbatim>\<open>Object.keys(updates).length === 0\<close>\<close>

definition no_keys :: "enrichment \<Rightarrow> bool" where
  "no_keys u \<longleftrightarrow>
     enrichment.country_name_official u = None \<and> state u = None \<and> enrichment.city u = None \<and>
     enrichment.district u = None \<and> country_code u = None"

text \<open>\<^verbatim>\<open>if (v) updates.key = v\<close>: the key is set for a truthy value only.\<close>

definition present :: "string option \<Rightarrow> string option" where
  "present v = (if truthy v then v else None)"

text \<open>
  \<^verbatim>\<open>.select(...).eq('user_id', userId).single()\<close>: the five columns of the one row with
  this key, and error PGRST116 when the rows with this key are not exactly one.
\<close>

definition selectUser :: "env \<Rightarrow> string \<Rightarrow> world \<Rightarrow> (db_error + enrichment) \<times> world" where
  "selectUser env userId w =
     (case store_call env (emit (SelectUser userId) w) of
        (Some e, w1) \<Rightarrow> (Inl e, w1)
      | (None, w1) \<Rightarrow>
          (case filter (\<lambda>r. id_users_row.user_id r = userId) (id_users (db w1)) of
             [r] \<Rightarrow> (Inr (enrichment.truncate r), w1)
           | _ \<Rightarrow> (Inl \<lparr>code = ''PGRST116''\<rparr>, w1)))"

text \<open>\<^verbatim>\<open>.update(finalUpdates).eq('user_id', userId)\<close>: the keys present are written.\<close>

definition applyUpdates :: "enrichment \<Rightarrow> id_users_row \<Rightarrow> id_users_row" where
  "applyUpdates u r =
     r\<lparr>enrichment.country_name_official :=
         (case enrichment.country_name_official u of
            None \<Rightarrow> enrichment.country_name_official r | Some v \<Rightarrow> Some v),
       state := (case state u of None \<Rightarrow> state r | Some v \<Rightarrow> Some v),
       enrichment.city := (case enrichment.city u of None \<Rightarrow> enrichment.city r | Some v \<Rightarrow> Some v),
       enrichment.district :=
         (case enrichment.district u of None \<Rightarrow> enrichment.district r | Some v \<Rightarrow> Some v),
       country_code := (case country_code u of None \<Rightarrow> country_code r | Some v \<Rightarrow> Some v)\<rparr>"

definition updateUser :: "env \<Rightarrow> string \<Rightarrow> enrichment \<Rightarrow> world \<Rightarrow> db_error option \<times> world" where
  "updateUser env userId u w =
     (case store_call env w of
        (Some e, w1) \<Rightarrow> (Some e, emit (UpdateUser userId u False) w1)
      | (None, w1) \<Rightarrow>
          (None,
           emit (UpdateUser userId u True)
             (w1\<lparr>db := (db w1)\<lparr>id_users :=
                   map (\<lambda>r. if id_users_row.user_id r = userId then applyUpdates u r else r)
                     (id_users (db w1))\<rparr>\<rparr>)))"

text \<open>
  \<^verbatim>\<open>enrichUser\<close>. An error of the store thrown inside its \<^verbatim>\<open>try\<close> is caught and makes it
  return false, so it has no error result either.
\<close>

definition enrichUser :: "env \<Rightarrow> string \<Rightarrow> geo_body option \<Rightarrow> world \<Rightarrow> bool \<times> world" where
  "enrichUser env userId geolocationData w =
     (case geolocationData of
        None \<Rightarrow> (False, w)
      | Some g \<Rightarrow>
          (case geo_body.location g of
             None \<Rightarrow> (False, w)
           | Some loc \<Rightarrow>
               (let updates =
                      \<lparr>enrichment.country_name_official = present (location.country_name_official loc),
                       state = present (state_prov loc),
                       enrichment.city = present (location.city loc),
                       enrichment.district = present (location.district loc),
                       country_code = present (country_code2 loc)\<rparr>
                in if no_keys updates then (False, w)
                   else
                     (case selectUser env userId w of
                        (Inl fetchError, w1) \<Rightarrow> (False, w1)
                      | (Inr currentUser, w1) \<Rightarrow>
                          (let keep = (\<lambda>new cur. if truthy new \<and> \<not> truthy cur then new else None);
                               finalUpdates =
                                 \<lparr>enrichment.country_name_official =
                                    keep (enrichment.country_name_official updates)
                                         (enrichment.country_name_official currentUser),
                                  state = keep (state updates) (state currentUser),
                                  enrichment.city =
                                    keep (enrichment.city updates) (enrichment.city currentUser),
                                  enrichment.district =
                                    keep (enrichment.district updates) (enrichment.district currentUser),
                                  country_code = keep (country_code updates) (country_code currentUser)\<rparr>
                           in if no_keys finalUpdates then (False, w1)
                              else (case updateUser env userId finalUpdates w1 of
                                      (Some e, w2) \<Rightarrow> (False, w2)
                                    | (None, w2) \<Rightarrow> (True, w2)))))))"

text \<open>
  The \<^verbatim>\<open>for\<close> loop of \<^verbatim>\<open>processEnrichmentBatch\<close>. Nothing in its \<^verbatim>\<open>try\<close> throws, so
  every user is counted and followed by the 200 ms pause.
\<close>

fun processUsers :: "env \<Rightarrow> id_users_row list \<Rightarrow> nat \<Rightarrow> nat \<Rightarrow> world \<Rightarrow> nat \<times> nat \<times> world" where
  "processUsers env [] processedCount enrichedCount w = (processedCount, enrichedCount, w)"
| "processUsers env (user # rest) processedCount enrichedCount w =
     (case fetchGeolocationData env (ip_address user) w of
        (None, w1) \<Rightarrow>
          processUsers env rest (processedCount + 1) enrichedCount (sleep env 200 w1)
      | (Some g, w1) \<Rightarrow>
          (case enrichUser env (id_users_row.user_id user) (Some g) w1 of
             (success, w2) \<Rightarrow>
               processUsers env rest (processedCount + 1)
                 (if success then enrichedCount + 1 else enrichedCount) (sleep env 200 w2)))"

record batch_result =
  processed :: nat
  enriched :: nat
  hasMore :: bool

definition processEnrichmentBatch ::
  "env \<Rightarrow> nat \<Rightarrow> nat \<Rightarrow> world \<Rightarrow> (error + batch_result) \<times> world" where
  "processEnrichmentBatch env batchSize offset w =
     (case getUsersNeedingEnrichment env batchSize offset w of
        (Inl e, w1) \<Rightarrow> (Inl e, w1)
      | (Inr us, w1) \<Rightarrow>
          if length us = 0 then (Inr \<lparr>processed = 0, enriched = 0, hasMore = False\<rparr>, w1)
          else (case processUsers env us 0 0 w1 of
                  (processedCount, enrichedCount, w2) \<Rightarrow>
                    (Inr \<lparr>processed = processedCount, enriched = enrichedCount,
                          hasMore = (length us = batchSize)\<rparr>, w2)))"

text \<open>
  The five enrichment columns by name: the column of a row (or the key of an object of
  that shape), and the sub-field of a geolocation response that is its candidate value.
\<close>

datatype column = Country_name_official | State | City | District | Country_code

fun column_of :: "column \<Rightarrow> 'a enrichment_scheme \<Rightarrow> string option" where
  "column_of Country_name_official r = enrichment.country_name_official r"
| "column_of State r = state r"
| "column_of City r = enrichment.city r"
| "column_of District r = enrichment.district r"
| "column_of Country_code r = country_code r"

fun subfield :: "column \<Rightarrow> location \<Rightarrow> string option" where
  "subfield Country_name_official loc = location.country_name_official loc"
| "subfield State loc = state_prov loc"
| "subfield City loc = location.city loc"
| "subfield District loc = location.district loc"
| "subfield Country_code loc = country_code2 loc"

definition candidate :: "column \<Rightarrow> geo_body option \<Rightarrow> string option" where
  "candidate c geolocationData =
     (case geolocationData of
        None \<Rightarrow> None
      | Some g \<Rightarrow> (case geo_body.location g of None \<Rightarrow> None | Some loc \<Rightarrow> subfield c loc))"

text \<open>
  No enrichment column of the table holds the empty string; and the stores that the
  writers of this repository produce from a table without rows.
\<close>

definition all_columns :: "column list" where
  "all_columns = [Country_name_official, State, City, District, Country_code]"

definition no_empty_columns :: "store \<Rightarrow> bool" where
  "no_empty_columns st \<longleftrightarrow>
     list_all (\<lambda>row. list_all (\<lambda>c. column_of c row \<noteq> Some []) all_columns) (id_users st)"

inductive produced :: "store \<Rightarrow> bool" where
  start: "id_users st = [] \<Longrightarrow> produced st"
| sync_upsert: "produced (db w) \<Longrightarrow> produced (db (snd (insertUsers env arg w)))"
| checkpoint: "produced (db w) \<Longrightarrow> produced (db (snd (updateCheckpoint env uid w)))"
| enrichment: "produced (db w) \<Longrightarrow> produced (db (snd (enrichUser env userId g w)))"

text \<open>The selector queries of a log: offset, batch size, and the number of rows returned
  (\<open>None\<close> when the store failed).\<close>

fun selector_calls :: "event list \<Rightarrow> (nat \<times> nat \<times> nat option) list" where
  "selector_calls [] = []"
| "selector_calls (SelectNeedingEnrichment offset batchSize rows # evs) =
     (offset, batchSize, rows) # selector_calls evs"
| "selector_calls (_ # evs) = selector_calls evs"

lemma selector_calls_append [simp]:
  "selector_calls (xs @ ys) = selector_calls xs @ selector_calls ys"
  by (induction xs rule: selector_calls.induct) auto

text \<open>A step of the enrichment process that makes no selector query and keeps the table's length.\<close>

definition quiet_step :: "world \<Rightarrow> world \<Rightarrow> bool" where
  "quiet_step w w' \<longleftrightarrow>
     length (id_users (db w')) = length (id_users (db w)) \<and>
     (\<exists>evs. trace w' = trace w @ evs \<and> selector_calls evs = [])"

text \<open>
  The loop of \<^verbatim>\<open>enrichUsers\<close> ends because a batch that asks for more has returned
  \<^verbatim>\<open>batchSize > 0\<close> rows from \<^verbatim>\<open>offset\<close> on, and enrichment never changes the number of
  rows of the table. The facts below establish that, for the termination proof.
\<close>

lemma quiet_step_refl [simp]: "quiet_step w w"
  by (simp add: quiet_step_def)

lemma quiet_step_trans: "quiet_step w w1 \<Longrightarrow> quiet_step w1 w2 \<Longrightarrow> quiet_step w w2"
  unfolding quiet_step_def by fastforce

lemma quiet_step_sleep: "quiet_step w (sleep env ms w)"
  by (simp add: quiet_step_def sleep_def)

lemma quiet_step_fetchGeolocationData:
  "fetchGeolocationData env ip w = (g, w1) \<Longrightarrow> quiet_step w w1"
  by (auto simp: fetchGeolocationData_def quiet_step_def emit_def Let_def
      split: if_splits geo_outcome.splits)

lemma quiet_step_selectUser: "selectUser env userId w = (r, w1) \<Longrightarrow> quiet_step w w1"
  by (auto simp: selectUser_def store_call_def emit_def quiet_step_def
      split: option.splits list.splits)

lemma quiet_step_updateUser: "updateUser env userId u w = (r, w1) \<Longrightarrow> quiet_step w w1"
  by (auto simp: updateUser_def store_call_def emit_def quiet_step_def split: option.splits)

lemma quiet_step_enrichUser:
  assumes "enrichUser env userId g w = (success, w')"
  shows "quiet_step w w'"
proof (cases "w' = w")
  case True
  then show ?thesis by simp
next
  case False
  obtain r1 w1 where sel: "selectUser env userId w = (r1, w1)"
    by (cases "selectUser env userId w")
  note q1 = quiet_step_selectUser [OF sel]
  show ?thesis
  proof (cases "w' = w1")
    case True
    with q1 show ?thesis by simp
  next
    case ne: False
    from assms False ne sel obtain u r2 where "updateUser env userId u w1 = (r2, w')"
      by (auto simp: enrichUser_def Let_def split: option.splits if_splits sum.splits prod.splits)
    from q1 quiet_step_updateUser [OF this] show ?thesis by (rule quiet_step_trans)
  qed
qed

lemma processUsers_effect:
  "processUsers env us p e w = (p', e', w') \<Longrightarrow> quiet_step w w' \<and> p' = p + length us"
proof (induction us arbitrary: p e w)
  case Nil
  then show ?case by simp
next
  case (Cons user rest)
  obtain g w1 where f: "fetchGeolocationData env (ip_address user) w = (g, w1)"
    by (cases "fetchGeolocationData env (ip_address user) w")
  note q1 = quiet_step_fetchGeolocationData [OF f]
  show ?case
  proof (cases g)
    case None
    with Cons.prems f have "processUsers env rest (p + 1) e (sleep env 200 w1) = (p', e', w')"
      by simp
    from Cons.IH [OF this] q1 quiet_step_sleep [of w1 env 200] show ?thesis
      by (auto intro: quiet_step_trans)
  next
    case (Some body)
    obtain success w2 where en: "enrichUser env (id_users_row.user_id user) (Some body) w1 = (success, w2)"
      by (cases "enrichUser env (id_users_row.user_id user) (Some body) w1")
    with Cons.prems f Some
    have "processUsers env rest (p + 1) (if success then e + 1 else e) (sleep env 200 w2) = (p', e', w')"
      by simp
    from Cons.IH [OF this] q1 quiet_step_enrichUser [OF en] quiet_step_sleep [of w2 env 200]
    show ?thesis by (auto intro: quiet_step_trans)
  qed
qed

lemma getUsersNeedingEnrichment_effect:
  assumes "getUsersNeedingEnrichment env batchSize offset w = (r, w1)"
  shows "db w1 = db w"
    and "\<exists>rows. trace w1 = trace w @ [SelectNeedingEnrichment offset batchSize rows] \<and>
           (case r of Inl e \<Rightarrow> rows = None
            | Inr us \<Rightarrow> rows = Some (length us) \<and>
                us = take batchSize (drop offset (filter needs_enrichment (id_users (db w)))))"
  using assms
  by (auto simp: getUsersNeedingEnrichment_def store_call_def emit_def Let_def
      split: option.splits)

lemma processEnrichmentBatch_effect:
  assumes "processEnrichmentBatch env batchSize offset w = (r, w1)"
  shows "length (id_users (db w1)) = length (id_users (db w)) \<and>
         (\<exists>rows evs. trace w1 = trace w @ evs \<and>
            selector_calls evs = [(offset, batchSize, rows)] \<and>
            (case r of
               Inl e \<Rightarrow> rows = None
             | Inr result \<Rightarrow>
                 (\<exists>n. rows = Some n \<and> processed result = n \<and> n \<le> batchSize \<and>
                      (0 < n \<longrightarrow> offset + n \<le> length (id_users (db w))) \<and>
                      hasMore result = (n = batchSize \<and> 0 < n))))"
proof -
  obtain r0 w0 where g: "getUsersNeedingEnrichment env batchSize offset w = (r0, w0)"
    by (cases "getUsersNeedingEnrichment env batchSize offset w")
  from getUsersNeedingEnrichment_effect [OF g] obtain rows where db0: "db w0 = db w"
    and tr0: "trace w0 = trace w @ [SelectNeedingEnrichment offset batchSize rows]"
    and r0: "case r0 of Inl e \<Rightarrow> rows = None
            | Inr us \<Rightarrow> rows = Some (length us) \<and>
                us = take batchSize (drop offset (filter needs_enrichment (id_users (db w))))"
    by blast
  show ?thesis
  proof (cases r0)
    case (Inl e)
    with assms g have "r = Inl e" "w1 = w0" by (simp_all add: processEnrichmentBatch_def)
    with Inl r0 db0 tr0 show ?thesis by simp
  next
    case (Inr us)
    with r0 have rows: "rows = Some (length us)"
      and us: "us = take batchSize (drop offset (filter needs_enrichment (id_users (db w))))"
      by simp_all
    have le: "length us \<le> batchSize" using us by simp
    have a: "length us \<le> length (filter needs_enrichment (id_users (db w))) - offset"
      using us by simp
    have b: "length (filter needs_enrichment (id_users (db w))) \<le> length (id_users (db w))"
      by (rule length_filter_le)
    have "0 < length us \<Longrightarrow> offset + length us \<le> length (id_users (db w))"
      using a b by arith
    then have bound: "us \<noteq> [] \<Longrightarrow> offset + length us \<le> length (id_users (db w))"
      by simp
    show ?thesis
    proof (cases "length us = 0")
      case True
      with assms g Inr have "r = Inr \<lparr>processed = 0, enriched = 0, hasMore = False\<rparr>" "w1 = w0"
        by (simp_all add: processEnrichmentBatch_def)
      with True rows db0 tr0 show ?thesis by simp
    next
      case False
      obtain p e w2 where pu: "processUsers env us 0 0 w0 = (p, e, w2)"
        by (cases "processUsers env us 0 0 w0") auto
      from processUsers_effect [OF pu] have q: "quiet_step w0 w2" and p: "p = length us" by simp_all
      from assms g Inr False pu
      have r: "r = Inr \<lparr>processed = p, enriched = e, hasMore = (length us = batchSize)\<rparr>"
        and w1: "w1 = w2"
        by (simp_all add: processEnrichmentBatch_def)
      from q obtain evs where len: "length (id_users (db w2)) = length (id_users (db w0))"
        and tr2: "trace w2 = trace w0 @ evs" and sc: "selector_calls evs = []"
        by (auto simp: quiet_step_def)
      have "trace w1 = trace w @ (SelectNeedingEnrichment offset batchSize rows # evs)"
        using tr0 tr2 w1 by simp
      moreover have "selector_calls (SelectNeedingEnrichment offset batchSize rows # evs) =
          [(offset, batchSize, rows)]" using sc by simp
      ultimately show ?thesis using r p rows le bound False len db0 w1
        by (intro conjI exI [of _ rows]
            exI [of _ "SelectNeedingEnrichment offset batchSize rows # evs"]) auto
    qed
  qed
qed

text \<open>
  The loop of \<^verbatim>\<open>enrichUsers\<close>: \<^verbatim>\<open>hasMore = result.hasMore\<close>, reset to false when
  \<^verbatim>\<open>result.processed < batchSize\<close>; a pause of 500 ms before the next batch.
\<close>

function enrichUsers_loop ::
  "env \<Rightarrow> nat \<Rightarrow> nat \<Rightarrow> nat \<Rightarrow> nat \<Rightarrow> world \<Rightarrow> (error + nat \<times> nat) \<times> world" where
  "enrichUsers_loop env batchSize offset totalProcessed totalEnriched w =
     (case processEnrichmentBatch env batchSize offset w of
        (Inl e, w1) \<Rightarrow> (Inl e, w1)
      | (Inr result, w1) \<Rightarrow>
          if (if processed result < batchSize then False else hasMore result)
          then enrichUsers_loop env batchSize (offset + batchSize)
                 (totalProcessed + processed result) (totalEnriched + enriched result)
                 (sleep env 500 w1)
          else (Inr (totalProcessed + processed result, totalEnriched + enriched result), w1))"
  by pat_completeness auto

termination
  apply (relation "measure (\<lambda>(env, batchSize, offset, totalProcessed, totalEnriched, w).
    length (id_users (db w)) - offset)")
   apply simp
  apply (simp split: if_splits)
  apply (drule processEnrichmentBatch_effect [OF sym])
  apply (auto simp: sleep_def)
  done


declare enrichUsers_loop.simps [simp del]

text \<open>\<^verbatim>\<open>enrichUsers\<close>, with \<^verbatim>\<open>config.ENRICHMENT_BATCH_SIZE\<close> as a parameter.\<close>

definition enrichUsers :: "env \<Rightarrow> nat \<Rightarrow> world \<Rightarrow> (error + nat \<times> nat) \<times> world" where
  "enrichUsers env batchSize w = enrichUsers_loop env batchSize 0 0 0 w"


section \<open>Sample environments\<close>

text \<open>
  Concrete feeds, stores and environments on which the properties below are evaluated.
  In \<open>quiet_env\<close> nothing takes time, the store never fails and the geolocation API never
  answers.
\<close>

definition mk_user :: "string \<Rightarrow> api_user" where
  "mk_user uid =
     \<lparr>user_id = uid, email = uid @ ''@example.com'', ipAddress = Some ''8.8.8.8'',
      identifierType = ''email'', createdAt = ''2024-01-01'', updatedAt = ''2024-01-02''\<rparr>"

definition ok_body :: "api_user list \<Rightarrow> bool \<Rightarrow> api_body" where
  "ok_body us nxt =
     \<lparr>status = 1, message = ''ok'',
      data = Some \<lparr>users = Some us, pagination = Some \<lparr>hasNextPage = Some nxt\<rparr>\<rparr>\<rparr>"

definition quiet_env :: "(nat \<Rightarrow> nat \<Rightarrow> axios_outcome) \<Rightarrow> env" where
  "quiet_env feed =
     \<lparr>http_reply = feed, http_latency = (\<lambda>k. 0), timer_slack = (\<lambda>k. 0),
      db_fault = (\<lambda>k. None), db_latency = (\<lambda>k. 0),
      geo_reply = (\<lambda>k ip. GeoRequestError)\<rparr>"

definition empty_store :: store where
  "empty_store = \<lparr>id_users = [], id_sync_state = None\<rparr>"

definition empty_feed :: "nat \<Rightarrow> nat \<Rightarrow> axios_outcome" where
  "empty_feed k page = Response (Some (ok_body [] False))"

definition gap_feed :: "nat \<Rightarrow> nat \<Rightarrow> axios_outcome" where
  "gap_feed k page =
     Response (Some (if page = 1 then ok_body [mk_user ''u1''] True
                     else if page = 2 then ok_body [] True
                     else ok_body [mk_user ''u3''] False))"

definition incr_feed :: "nat \<Rightarrow> nat \<Rightarrow> axios_outcome" where
  "incr_feed k page =
     Response (Some (if page = 1 then ok_body [mk_user ''n1'', mk_user ''n2''] True
                     else ok_body [mk_user ''n3'', mk_user ''old1'', mk_user ''old2''] True))"

definition single_feed :: "nat \<Rightarrow> nat \<Rightarrow> axios_outcome" where
  "single_feed k page = Response (Some (ok_body [mk_user ''u1''] False))"

text \<open>The store refuses its second operation.\<close>

definition failing_upsert_env :: env where
  "failing_upsert_env =
     (quiet_env single_feed)\<lparr>db_fault := (\<lambda>k. if k = 1 then Some \<lparr>code = ''500''\<rparr> else None)\<rparr>"

definition dead_feed :: "nat \<Rightarrow> nat \<Rightarrow> axios_outcome" where
  "dead_feed k page = RequestError"

definition synced_store :: store where
  "synced_store = \<lparr>id_users = [], id_sync_state = Some \<lparr>value = ''old'', updated_at = 0\<rparr>\<rparr>"

text \<open>A store with one user whose \<^verbatim>\<open>state\<close> column holds the given value.\<close>

definition one_user_store :: "string option \<Rightarrow> store" where
  "one_user_store st =
     \<lparr>id_users =
        [\<lparr>enrichment.country_name_official = None, state = st, enrichment.city = None,
          enrichment.district = None, country_code = None,
          id_users_row.user_id = ''u1'', id_users_row.email = ''u1@example.com'',
          ip_address = Some ''8.8.8.8'', identifier_type = ''email'',
          created_at = ''2024-01-01'', id_users_row.updated_at = ''2024-01-02'',
          ingested_at = 0\<rparr>],
      id_sync_state = None\<rparr>"

text \<open>A geolocation response whose only sub-field is \<^verbatim>\<open>state_prov = "NY"\<close>.\<close>

definition geo_NY :: "geo_body option" where
  "geo_NY =
     Some \<lparr>location = Some \<lparr>location.country_name_official = None, state_prov = Some ''NY'',
                             location.city = None, location.district = None,
                             country_code2 = None\<rparr>\<rparr>"

text \<open>
  A geolocation response whose only sub-field is \<^verbatim>\<open>state_prov = "CA"\<close>, and the state of
  a process that has inserted user \<^verbatim>\<open>u1\<close> into an empty table and enriched it with that
  response.
\<close>

definition geo_CA :: "geo_body option" where
  "geo_CA =
     Some \<lparr>location = Some \<lparr>location.country_name_official = None, state_prov = Some ''CA'',
                             location.city = None, location.district = None,
                             country_code2 = None\<rparr>\<rparr>"

definition ca_world :: world where
  "ca_world =
     snd (enrichUser (quiet_env empty_feed) ''u1'' geo_CA
            (snd (insertUsers (quiet_env empty_feed) (Some [mk_user ''u1''])
                    (process_start 0 empty_store))))"

text \<open>A feed to which no request can be sent.\<close>

definition unsendable_feed :: "nat \<Rightarrow> nat \<Rightarrow> axios_outcome" where
  "unsendable_feed k page = SetupError ''Invalid URL''"

section \<open>Properties of the page fetcher\<close>

lemma n_http_waitForRateLimit [simp]: "n_http (waitForRateLimit env w) = n_http w"
  by (simp add: waitForRateLimit_def Let_def sleep_def)

text \<open>
  C6. A call of \<^verbatim>\<open>fetchUsersPage\<close> that reaches the network (a response with any
  application status or with a null body, a non-success response, or no response at all)
  appends exactly one timestamp, the time at which the call ended, to the rate limiter's
  list as \<^verbatim>\<open>waitForRateLimit\<close> left it; a call that fails before leaving the process
  appends none.
\<close>

theorem fetchUsersPage_records_once:
  "apiCallTimestamps (snd (fetchUsersPage env page w)) =
     apiCallTimestamps (waitForRateLimit env w) @
       (if reaches_network (http_reply env (n_http w) page)
        then [clock (snd (fetchUsersPage env page w))] else [])"
  by (simp add: fetchUsersPage_def fetchUsersPage_try_def fetchUsersPage_catch_def
      recordApiCall_def emit_def plain_def reaches_network_def Let_def
      split: axios_outcome.splits option.splits prod.splits sum.splits)

theorem fetchUsersPage_records_once_witness:
  "apiCallTimestamps (snd (fetchUsersPage (quiet_env dead_feed) 1 (process_start 7 empty_store))) = [7] \<and>
   apiCallTimestamps (snd (fetchUsersPage (quiet_env empty_feed) 1 (process_start 7 empty_store))) = [7] \<and>
   apiCallTimestamps (snd (fetchUsersPage (quiet_env unsendable_feed) 1 (process_start 7 empty_store))) = []"
  using fetchUsersPage_records_once [of "quiet_env dead_feed" 1 "process_start 7 empty_store"]
    fetchUsersPage_records_once [of "quiet_env empty_feed" 1 "process_start 7 empty_store"]
    fetchUsersPage_records_once [of "quiet_env unsendable_feed" 1 "process_start 7 empty_store"]
  by (simp add: fetchUsersPage_def fetchUsersPage_try_def fetchUsersPage_catch_def
      waitForRateLimit_def recordApiCall_def emit_def reaches_network_def
      quiet_env_def dead_feed_def empty_feed_def unsendable_feed_def ok_body_def
      process_start_def RATE_LIMIT_MAX_REQUESTS_def Let_def)

lemma admissions_append [simp]: "admissions (xs @ ys) = admissions xs @ admissions ys"
  by (induction xs rule: admissions.induct) auto

lemma recorded_append [simp]: "recorded (xs @ ys) = recorded xs @ recorded ys"
  by (induction xs rule: recorded.induct) auto

lemma shiftExpired_split:
  "\<exists>pre. ts = pre @ shiftExpired now ts \<and> (\<forall>c\<in>set pre. c + RATE_LIMIT_WINDOW_MS \<le> now)"
proof (induction ts)
  case Nil
  show ?case by simp
next
  case (Cons t ts)
  show ?case
  proof (cases "now - t \<ge> RATE_LIMIT_WINDOW_MS")
    case True
    from Cons obtain pre where "ts = pre @ shiftExpired now ts"
      and "\<forall>c\<in>set pre. c + RATE_LIMIT_WINDOW_MS \<le> now" by blast
    with True have "t # ts = (t # pre) @ shiftExpired now (t # ts) \<and>
        (\<forall>c\<in>set (t # pre). c + RATE_LIMIT_WINDOW_MS \<le> now)" by simp
    then show ?thesis by blast
  next
    case False
    then have "t # ts = [] @ shiftExpired now (t # ts) \<and>
        (\<forall>c\<in>set []. c + RATE_LIMIT_WINDOW_MS \<le> now)" by simp
    then show ?thesis by blast
  qed
qed

lemma length_shiftExpired: "length (shiftExpired now ts) \<le> length ts"
  by (induction ts) auto

lemma shiftExpired_drops_head:
  "ts \<noteq> [] \<Longrightarrow> now - ts ! 0 \<ge> RATE_LIMIT_WINDOW_MS \<Longrightarrow> length (shiftExpired now ts) < length ts"
  using length_shiftExpired [of now "tl ts"] by (cases ts) auto

text \<open>What \<^verbatim>\<open>waitForRateLimit\<close> does to the timestamp list, the clock and the log.\<close>

lemma waitForRateLimit_effect:
  assumes "length (apiCallTimestamps w) \<le> RATE_LIMIT_MAX_REQUESTS"
  shows "\<exists>pre. apiCallTimestamps w = pre @ apiCallTimestamps (waitForRateLimit env w) \<and>
           (\<forall>c\<in>set pre. c + RATE_LIMIT_WINDOW_MS \<le> clock (waitForRateLimit env w))"
    and "length (apiCallTimestamps (waitForRateLimit env w)) < RATE_LIMIT_MAX_REQUESTS"
    and "clock w \<le> clock (waitForRateLimit env w)"
    and "trace (waitForRateLimit env w) = trace w"
proof -
  let ?now = "clock w"
  let ?ts1 = "shiftExpired ?now (apiCallTimestamps w)"
  obtain pre1 where pre1: "apiCallTimestamps w = pre1 @ ?ts1"
    "\<forall>c\<in>set pre1. c + RATE_LIMIT_WINDOW_MS \<le> ?now"
    using shiftExpired_split by blast
  have len1: "length ?ts1 \<le> RATE_LIMIT_MAX_REQUESTS"
    using assms length_shiftExpired [of ?now "apiCallTimestamps w"] by simp
  show "trace (waitForRateLimit env w) = trace w"
    by (simp add: waitForRateLimit_def Let_def sleep_def)
  show clk: "clock w \<le> clock (waitForRateLimit env w)"
    by (simp add: waitForRateLimit_def Let_def sleep_def)
  show "\<exists>pre. apiCallTimestamps w = pre @ apiCallTimestamps (waitForRateLimit env w) \<and>
           (\<forall>c\<in>set pre. c + RATE_LIMIT_WINDOW_MS \<le> clock (waitForRateLimit env w))"
  proof (cases "length ?ts1 \<ge> RATE_LIMIT_MAX_REQUESTS")
    case False
    then have "waitForRateLimit env w = w\<lparr>apiCallTimestamps := ?ts1\<rparr>"
      by (simp add: waitForRateLimit_def Let_def)
    with pre1 show ?thesis by auto
  next
    case True
    let ?w2 = "sleep env (RATE_LIMIT_WINDOW_MS - (?now - ?ts1 ! 0) + 100) (w\<lparr>apiCallTimestamps := ?ts1\<rparr>)"
    have eq: "waitForRateLimit env w = ?w2\<lparr>apiCallTimestamps := shiftExpired (clock ?w2) ?ts1\<rparr>"
      using True by (simp add: waitForRateLimit_def Let_def sleep_def)
    obtain pre2 where pre2: "?ts1 = pre2 @ shiftExpired (clock ?w2) ?ts1"
      "\<forall>c\<in>set pre2. c + RATE_LIMIT_WINDOW_MS \<le> clock ?w2"
      using shiftExpired_split by blast
    have "?now \<le> clock ?w2" by (simp add: sleep_def)
    with pre1 pre2 have "apiCallTimestamps w = (pre1 @ pre2) @ shiftExpired (clock ?w2) ?ts1 \<and>
        (\<forall>c\<in>set (pre1 @ pre2). c + RATE_LIMIT_WINDOW_MS \<le> clock ?w2)"
      by (metis (no_types, lifting) Un_iff append.assoc order_trans set_append)
    moreover have "apiCallTimestamps (waitForRateLimit env w) = shiftExpired (clock ?w2) ?ts1"
      and "clock (waitForRateLimit env w) = clock ?w2"
      using eq by simp_all
    ultimately show ?thesis by metis
  qed
  show "length (apiCallTimestamps (waitForRateLimit env w)) < RATE_LIMIT_MAX_REQUESTS"
  proof (cases "length ?ts1 \<ge> RATE_LIMIT_MAX_REQUESTS")
    case False
    then show ?thesis by (simp add: waitForRateLimit_def Let_def)
  next
    case True
    let ?w2 = "sleep env (RATE_LIMIT_WINDOW_MS - (?now - ?ts1 ! 0) + 100) (w\<lparr>apiCallTimestamps := ?ts1\<rparr>)"
    have eq: "apiCallTimestamps (waitForRateLimit env w) = shiftExpired (clock ?w2) ?ts1"
      using True by (simp add: waitForRateLimit_def Let_def sleep_def)
    have ne: "?ts1 \<noteq> []" using True by (auto simp: RATE_LIMIT_MAX_REQUESTS_def)
    have "clock ?w2 - ?ts1 ! 0 \<ge> RATE_LIMIT_WINDOW_MS"
      by (simp add: sleep_def)
    from shiftExpired_drops_head [OF ne this] len1 eq show ?thesis by simp
  qed
qed


lemma trace_waitForRateLimit [simp]: "trace (waitForRateLimit env w) = trace w"
  by (simp add: waitForRateLimit_def Let_def sleep_def)

lemma fetchUsersPage_clock:
  "clock (snd (fetchUsersPage env page w)) =
     clock (waitForRateLimit env w) + int (http_latency env (n_http w))"
  by (simp add: fetchUsersPage_def fetchUsersPage_try_def fetchUsersPage_catch_def
      recordApiCall_def emit_def plain_def Let_def
      split: axios_outcome.splits option.splits prod.splits sum.splits)

lemma fetchUsersPage_trace:
  "trace (snd (fetchUsersPage env page w)) =
     trace w @
       (if reaches_network (http_reply env (n_http w) page)
        then [HttpGet page (clock (waitForRateLimit env w)) True,
              RecordApiCall (clock (snd (fetchUsersPage env page w)))]
        else [HttpGet page (clock (waitForRateLimit env w)) False])"
  by (simp add: fetchUsersPage_def fetchUsersPage_try_def fetchUsersPage_catch_def
      recordApiCall_def emit_def plain_def reaches_network_def Let_def
      split: axios_outcome.splits option.splits prod.splits sum.splits)

lemma fetchUsersPage_timestamps:
  "apiCallTimestamps (snd (fetchUsersPage env page w)) =
     apiCallTimestamps (waitForRateLimit env w) @
       (if reaches_network (http_reply env (n_http w) page)
        then [clock (snd (fetchUsersPage env page w))] else [])"
  by (simp add: fetchUsersPage_def fetchUsersPage_try_def fetchUsersPage_catch_def
      recordApiCall_def emit_def plain_def reaches_network_def Let_def
      split: axios_outcome.splits option.splits prod.splits sum.splits)

lemma limiter_inv_fetchUsersPage:
  assumes inv: "limiter_inv w"
  shows "limiter_inv (snd (fetchUsersPage env page w))"
proof -
  let ?w1 = "waitForRateLimit env w"
  let ?w' = "snd (fetchUsersPage env page w)"
  let ?adm = "admissions (trace w)"
  let ?rec = "recorded (trace w)"
  from inv have le: "list_all2 (\<le>) ?adm ?rec"
    and len: "length (apiCallTimestamps w) \<le> RATE_LIMIT_MAX_REQUESTS"
    and spaced: "\<forall>i. i + 3 < length ?adm \<longrightarrow> ?adm ! i + RATE_LIMIT_WINDOW_MS \<le> ?adm ! (i + 3)"
    by (simp_all add: limiter_inv_def)
  from inv obtain pre0 where pre0: "?rec = pre0 @ apiCallTimestamps w"
    "\<forall>c\<in>set pre0. c + RATE_LIMIT_WINDOW_MS \<le> clock w"
    by (auto simp: limiter_inv_def)
  from waitForRateLimit_effect [OF len, of env]
  obtain pre1 where pre1: "apiCallTimestamps w = pre1 @ apiCallTimestamps ?w1"
    "\<forall>c\<in>set pre1. c + RATE_LIMIT_WINDOW_MS \<le> clock ?w1"
    and len1: "length (apiCallTimestamps ?w1) < RATE_LIMIT_MAX_REQUESTS"
    and clk1: "clock w \<le> clock ?w1"
    by blast
  have clk': "clock ?w1 \<le> clock ?w'" by (simp add: fetchUsersPage_clock)
  let ?pre = "pre0 @ pre1"
  have rec_split: "?rec = ?pre @ apiCallTimestamps ?w1" using pre0 pre1 by simp
  have pre_old: "\<forall>c\<in>set ?pre. c + RATE_LIMIT_WINDOW_MS \<le> clock ?w1"
    using pre0 pre1 clk1 by auto
  have len_eq: "length ?adm = length ?rec" using le by (rule list_all2_lengthD)
  show ?thesis
  proof (cases "reaches_network (http_reply env (n_http w) page)")
    case False
    then have tr: "trace ?w' = trace w @ [HttpGet page (clock ?w1) False]"
      and ts: "apiCallTimestamps ?w' = apiCallTimestamps ?w1"
      by (simp_all add: fetchUsersPage_trace fetchUsersPage_timestamps)
    have "\<forall>c\<in>set ?pre. c + RATE_LIMIT_WINDOW_MS \<le> clock ?w'"
      using pre_old clk' by (meson order_trans)
    with rec_split have "\<exists>pre. recorded (trace ?w') = pre @ apiCallTimestamps ?w' \<and>
        (\<forall>c\<in>set pre. c + RATE_LIMIT_WINDOW_MS \<le> clock ?w')"
      unfolding tr ts by (intro exI [of _ ?pre]) simp
    moreover have "length (apiCallTimestamps ?w') \<le> RATE_LIMIT_MAX_REQUESTS"
      using len1 ts by simp
    ultimately show ?thesis
      using le spaced unfolding limiter_inv_def tr by simp
  next
    case True
    let ?a = "clock ?w1"
    let ?c = "clock ?w'"
    from True have tr: "trace ?w' = trace w @ [HttpGet page ?a True, RecordApiCall ?c]"
      and ts: "apiCallTimestamps ?w' = apiCallTimestamps ?w1 @ [?c]"
      by (simp_all add: fetchUsersPage_trace fetchUsersPage_timestamps)
    have adm': "admissions (trace ?w') = ?adm @ [?a]" by (simp add: tr)
    have rec': "recorded (trace ?w') = ?rec @ [?c]" by (simp add: tr)
    have c1: "list_all2 (\<le>) (admissions (trace ?w')) (recorded (trace ?w'))"
      unfolding adm' rec' using le clk' by (simp add: list_all2_appendI)
    have "recorded (trace ?w') = ?pre @ apiCallTimestamps ?w'"
      unfolding rec' ts using rec_split by simp
    moreover have "\<forall>c\<in>set ?pre. c + RATE_LIMIT_WINDOW_MS \<le> ?c"
      using pre_old clk' by (meson order_trans)
    ultimately have c2: "\<exists>pre. recorded (trace ?w') = pre @ apiCallTimestamps ?w' \<and>
        (\<forall>c\<in>set pre. c + RATE_LIMIT_WINDOW_MS \<le> ?c)" by blast
    have c3: "length (apiCallTimestamps ?w') \<le> RATE_LIMIT_MAX_REQUESTS"
      using len1 ts by simp
    have c4: "\<forall>i. i + 3 < length (admissions (trace ?w')) \<longrightarrow>
        admissions (trace ?w') ! i + RATE_LIMIT_WINDOW_MS \<le> admissions (trace ?w') ! (i + 3)"
    proof (intro allI impI)
      fix i assume i: "i + 3 < length (admissions (trace ?w'))"
      show "admissions (trace ?w') ! i + RATE_LIMIT_WINDOW_MS \<le> admissions (trace ?w') ! (i + 3)"
      proof (cases "i + 3 < length ?adm")
        case True
        with spaced show ?thesis unfolding adm' by (simp add: nth_append)
      next
        case False
        with i have i3: "i + 3 = length ?adm" unfolding adm' by simp
        have "length ?pre + length (apiCallTimestamps ?w1) = length ?rec"
          using rec_split by (metis length_append)
        with len1 len_eq i3 have ipre: "i < length ?pre"
          by (simp add: RATE_LIMIT_MAX_REQUESTS_def)
        then have "?rec ! i = ?pre ! i" using rec_split by (metis nth_append)
        moreover have "?pre ! i \<in> set ?pre" using ipre by (rule nth_mem)
        ultimately have "?rec ! i + RATE_LIMIT_WINDOW_MS \<le> ?a" using pre_old by metis
        moreover have "?adm ! i \<le> ?rec ! i"
          using le i3 by (simp add: list_all2_nthD)
        ultimately show ?thesis unfolding adm' using i3 by (simp add: nth_append)
      qed
    qed
    show ?thesis unfolding limiter_inv_def using c1 c2 c3 c4 by blast
  qed
qed

lemma limiter_inv_advance: "limiter_inv w \<Longrightarrow> limiter_inv (w\<lparr>clock := clock w + int gap\<rparr>)"
  unfolding limiter_inv_def by fastforce

lemma limiter_inv_fetchSequence: "limiter_inv w \<Longrightarrow> limiter_inv (fetchSequence env calls w)"
proof (induction calls arbitrary: w)
  case Nil
  then show ?case by simp
next
  case (Cons call calls)
  obtain gap page where call: "call = (gap, page)" by (cases call)
  from Cons.prems have "limiter_inv (snd (fetchUsersPage env page (w\<lparr>clock := clock w + int gap\<rparr>)))"
    by (intro limiter_inv_fetchUsersPage limiter_inv_advance)
  then show ?case unfolding call by (simp add: Cons.IH)
qed

lemma limiter_inv_process_start: "limiter_inv (process_start t0 st)"
  by (simp add: limiter_inv_def process_start_def)

lemma shiftExpired_head_in_window:
  "shiftExpired now ts \<noteq> [] \<Longrightarrow> now - shiftExpired now ts ! 0 < RATE_LIMIT_WINDOW_MS"
  by (induction ts) (auto split: if_splits)

text \<open>
  C3. Take any sequence of sequential \<^verbatim>\<open>fetchUsersPage\<close> calls, with any pauses between
  them, any replies and any latencies, made by a process that started with an empty
  timestamp list. Of the requests that reached the network, the one issued third after any
  given one is issued at least \<^verbatim>\<open>RATE_LIMIT_WINDOW_MS\<close> (10000 ms) later: no window of
  10000 ms holds more than three of them. Moreover a call that finds three timestamps
  still inside the window is suspended until the oldest of them plus 10000 ms plus the
  100 ms buffer (plus whatever the timer overshoots); any other call is not suspended.
\<close>

theorem rate_limit_window:
  "(\<forall>i. i + 3 < length (admissions (trace (fetchSequence env calls (process_start t0 st)))) \<longrightarrow>
      admissions (trace (fetchSequence env calls (process_start t0 st))) ! i + RATE_LIMIT_WINDOW_MS
        \<le> admissions (trace (fetchSequence env calls (process_start t0 st))) ! (i + 3)) \<and>
   (let ts = shiftExpired (clock w) (apiCallTimestamps w)
    in if length ts \<ge> RATE_LIMIT_MAX_REQUESTS
       then clock (waitForRateLimit env w) =
              ts ! 0 + RATE_LIMIT_WINDOW_MS + 100 + int (timer_slack env (n_timer w))
       else clock (waitForRateLimit env w) = clock w)"
proof
  have "limiter_inv (fetchSequence env calls (process_start t0 st))"
    by (rule limiter_inv_fetchSequence [OF limiter_inv_process_start])
  then show "\<forall>i. i + 3 < length (admissions (trace (fetchSequence env calls (process_start t0 st)))) \<longrightarrow>
      admissions (trace (fetchSequence env calls (process_start t0 st))) ! i + RATE_LIMIT_WINDOW_MS
        \<le> admissions (trace (fetchSequence env calls (process_start t0 st))) ! (i + 3)"
    by (simp add: limiter_inv_def)
next
  have "length (shiftExpired (clock w) (apiCallTimestamps w)) \<ge> RATE_LIMIT_MAX_REQUESTS \<Longrightarrow>
     clock w - shiftExpired (clock w) (apiCallTimestamps w) ! 0 < RATE_LIMIT_WINDOW_MS"
  proof -
    assume "length (shiftExpired (clock w) (apiCallTimestamps w)) \<ge> RATE_LIMIT_MAX_REQUESTS"
    then have "shiftExpired (clock w) (apiCallTimestamps w) \<noteq> []"
      by (auto simp: RATE_LIMIT_MAX_REQUESTS_def)
    then show ?thesis by (rule shiftExpired_head_in_window)
  qed
  then show "let ts = shiftExpired (clock w) (apiCallTimestamps w)
    in if length ts \<ge> RATE_LIMIT_MAX_REQUESTS
       then clock (waitForRateLimit env w) =
              ts ! 0 + RATE_LIMIT_WINDOW_MS + 100 + int (timer_slack env (n_timer w))
       else clock (waitForRateLimit env w) = clock w"
    by (auto simp: waitForRateLimit_def Let_def sleep_def)
qed


lemma sample_admissions:
  "admissions (trace (fetchSequence (quiet_env empty_feed) [(0, 1), (0, 2), (0, 3), (0, 4)]
      (process_start 5000 empty_store))) = [5000, 5000, 5000, 15100]"
  by (simp add: quiet_env_def empty_feed_def ok_body_def process_start_def empty_store_def
      fetchUsersPage_def fetchUsersPage_try_def fetchUsersPage_catch_def waitForRateLimit_def
      recordApiCall_def emit_def sleep_def reaches_network_def
      RATE_LIMIT_MAX_REQUESTS_def RATE_LIMIT_WINDOW_MS_def Let_def)

theorem rate_limit_window_witness:
  "admissions (trace (fetchSequence (quiet_env empty_feed) [(0, 1), (0, 2), (0, 3), (0, 4)]
      (process_start 5000 empty_store))) = [5000, 5000, 5000, 15100] \<and>
   (5000::int) + RATE_LIMIT_WINDOW_MS \<le> 15100 \<and>
   clock (waitForRateLimit (quiet_env empty_feed)
      ((process_start 5000 empty_store)\<lparr>apiCallTimestamps := [5000, 5000, 5000]\<rparr>)) = 15100"
  using rate_limit_window [of "quiet_env empty_feed" "[(0, 1), (0, 2), (0, 3), (0, 4)]" 5000
      empty_store "(process_start 5000 empty_store)\<lparr>apiCallTimestamps := [5000, 5000, 5000]\<rparr>"]
    sample_admissions
  by (simp add: quiet_env_def process_start_def
      RATE_LIMIT_MAX_REQUESTS_def RATE_LIMIT_WINDOW_MS_def Let_def)

section \<open>Properties of the store access and the sync orchestrator\<close>

lemma waitForRateLimit_frame [simp]:
  "db (waitForRateLimit env w) = db w"
  "n_db (waitForRateLimit env w) = n_db w"
  by (simp_all add: waitForRateLimit_def Let_def sleep_def)

lemma fetchUsersPage_frame:
  assumes "fetchUsersPage env page w = (r, w1)"
  shows "db w1 = db w" and "n_db w1 = n_db w" and "n_http w1 = Suc (n_http w)"
  using assms
  by (auto simp: fetchUsersPage_def fetchUsersPage_try_def fetchUsersPage_catch_def
      recordApiCall_def emit_def plain_def Let_def
      split: axios_outcome.splits option.splits prod.splits sum.splits if_splits)

lemma fetchUsersPage_events:
  assumes "fetchUsersPage env page w = (r, w1)"
  shows "\<exists>evs. trace w1 = trace w @ evs \<and> fetched_pages evs = [page] \<and> upserts evs = [] \<and>
           (\<forall>ev\<in>set evs. \<not> is_checkpoint_write ev)"
proof -
  have "w1 = snd (fetchUsersPage env page w)" using assms by simp
  then show ?thesis by (simp add: fetchUsersPage_trace)
qed

lemma fetchUsersPage_ok:
  assumes "page_of (http_reply env (n_http w) page) = Some (us, nx)"
  shows "\<exists>d. fst (fetchUsersPage env page w) = Inr (Some d) \<and> usersOf d = us \<and> hasNextPageOf d = nx"
  using assms
  by (auto simp: page_of_def fetchUsersPage_def fetchUsersPage_try_def Let_def
      split: axios_outcome.splits option.splits if_splits)

lemma insertUsers_result:
  "fst (insertUsers env arg w) =
     Inr (case arg of None \<Rightarrow> 0
          | Some us \<Rightarrow> if us = [] then 0 else if db_fault env (n_db w) = None then length us else 0)"
  by (auto simp: insertUsers_def insertUsers_try_def store_call_def Let_def
      split: option.splits prod.splits sum.splits)

lemma insertUsers_frame:
  assumes "insertUsers env arg w = (r, w1)"
  shows "id_sync_state (db w1) = id_sync_state (db w)" and "n_http w1 = n_http w"
    and "\<exists>n. r = Inr n"
  using assms
  by (auto simp: insertUsers_def insertUsers_try_def store_call_def emit_def Let_def
      split: option.splits prod.splits sum.splits if_splits)

lemma insertUsers_events:
  assumes "insertUsers env (Some us) w = (r, w1)" and "us \<noteq> []"
  shows "\<exists>ok. trace w1 = trace w @ [UpsertUsers us ok]"
  using assms
  by (auto simp: insertUsers_def insertUsers_try_def store_call_def emit_def Let_def
      split: option.splits prod.splits sum.splits if_splits)

text \<open>
  C9. \<^verbatim>\<open>insertUsers\<close> never throws: it always returns a number. For a null or an empty
  list it returns 0 and leaves everything as it was, the store not contacted. For a list
  that is not empty it makes one upsert call with that list and returns the length of the
  list when the store reports no error, and 0 when it reports one.
\<close>

theorem insertUsers_never_throws:
  "(\<exists>n. fst (insertUsers env arg w) = Inr n) \<and>
   insertUsers env None w = (Inr 0, w) \<and>
   insertUsers env (Some []) w = (Inr 0, w) \<and>
   (us \<noteq> [] \<longrightarrow>
      fst (insertUsers env (Some us) w) =
        Inr (if db_fault env (n_db w) = None then length us else 0) \<and>
      new_events w (snd (insertUsers env (Some us) w)) =
        [UpsertUsers us (db_fault env (n_db w) = None)])"
  by (auto simp: insertUsers_def insertUsers_try_def store_call_def emit_def new_events_def Let_def
      split: option.splits prod.splits sum.splits)


lemma outline_append [simp]: "outline (xs @ ys) = outline xs @ outline ys"
  by (induction xs rule: outline.induct) auto

lemma fetched_pages_append [simp]: "fetched_pages (xs @ ys) = fetched_pages xs @ fetched_pages ys"
  by (induction xs rule: fetched_pages.induct) auto

lemma upserts_append [simp]: "upserts (xs @ ys) = upserts xs @ upserts ys"
  by (induction xs rule: upserts.induct) auto

lemma new_events_append [simp]: "trace w' = trace w @ evs \<Longrightarrow> new_events w w' = evs"
  by (simp add: new_events_def)

lemma page_of_reaches: "page_of out = Some p \<Longrightarrow> reaches_network out"
  by (auto simp: page_of_def reaches_network_def split: axios_outcome.splits)

lemma fetchUsersPage_ok_run:
  assumes "page_of (http_reply env (n_http w) page) = Some (us, nx)"
  obtains d w1 where "fetchUsersPage env page w = (Inr (Some d), w1)"
    and "usersOf d = us" and "hasNextPageOf d = nx"
    and "db w1 = db w" and "n_db w1 = n_db w" and "n_http w1 = Suc (n_http w)"
    and "\<exists>evs. trace w1 = trace w @ evs \<and> outline evs = [HttpGet page 0 True]"
proof -
  obtain r w1 where run: "fetchUsersPage env page w = (r, w1)"
    by (cases "fetchUsersPage env page w")
  from fetchUsersPage_ok [OF assms] run obtain d where
    d: "r = Inr (Some d)" "usersOf d = us" "hasNextPageOf d = nx" by auto
  have "w1 = snd (fetchUsersPage env page w)" using run by simp
  then have "trace w1 = trace w @ [HttpGet page (clock (waitForRateLimit env w)) True,
      RecordApiCall (clock w1)]"
    using page_of_reaches [OF assms] by (simp add: fetchUsersPage_trace)
  then have "\<exists>evs. trace w1 = trace w @ evs \<and> outline evs = [HttpGet page 0 True]"
    by simp
  with that run d fetchUsersPage_frame [OF run] show thesis by blast
qed

lemma map_upt_Suc_shift: "map f [0..<Suc n] = f 0 # map (\<lambda>j. f (Suc j)) [0..<n]"
  by (simp add: map_upt_Suc del: upt_Suc)

lemma fetchAllPages_loop_run:
  assumes "\<forall>j<K. page_of (http_reply env (n_http w + j) (currentPage + j)) = Some (pg j, Suc j < K)"
    and "0 < K" and "K \<le> fuel"
  shows "\<exists>w'. fetchAllPages_loop fuel env currentPage allUsers w =
             Some (Inr (allUsers @ concat (map pg [0..<K])), w') \<and>
           db w' = db w \<and> n_db w' = n_db w \<and> n_http w' = n_http w + K \<and>
           (\<exists>evs. trace w' = trace w @ evs \<and>
              outline evs = map (\<lambda>j. HttpGet (currentPage + j) 0 True) [0..<K])"
  using assms
proof (induction K arbitrary: fuel currentPage allUsers w pg)
  case 0
  then show ?case by simp
next
  case (Suc K)
  from Suc.prems(3) obtain fuel' where fuel: "fuel = Suc fuel'" and fuel': "K \<le> fuel'"
    by (cases fuel) auto
  from Suc.prems(1) have "page_of (http_reply env (n_http w) currentPage) = Some (pg 0, 0 < K)"
    by fastforce
  then obtain d w1 where run: "fetchUsersPage env currentPage w = (Inr (Some d), w1)"
    and d: "usersOf d = pg 0" "hasNextPageOf d = (0 < K)"
    and frame: "db w1 = db w" "n_db w1 = n_db w" "n_http w1 = Suc (n_http w)"
    and ev1: "\<exists>evs. trace w1 = trace w @ evs \<and> outline evs = [HttpGet currentPage 0 True]"
    by (rule fetchUsersPage_ok_run)
  from ev1 obtain evs1 where evs1: "trace w1 = trace w @ evs1"
    "outline evs1 = [HttpGet currentPage 0 True]" by blast
  show ?case
  proof (cases "0 < K")
    case False
    then have "K = 0" by simp
    with run d frame evs1 fuel show ?thesis by auto
  next
    case True
    have "\<forall>j<K. page_of (http_reply env (n_http w1 + j) (currentPage + 1 + j)) =
        Some (pg (Suc j), Suc j < K)"
      using Suc.prems(1) frame(3) by fastforce
    from Suc.IH [OF this True fuel', of "allUsers @ pg 0"]
    obtain w' where rec: "fetchAllPages_loop fuel' env (currentPage + 1) (allUsers @ pg 0) w1 =
          Some (Inr ((allUsers @ pg 0) @ concat (map (\<lambda>j. pg (Suc j)) [0..<K])), w')"
      and frame': "db w' = db w1" "n_db w' = n_db w1" "n_http w' = n_http w1 + K"
      and ev2: "\<exists>evs. trace w' = trace w1 @ evs \<and>
              outline evs = map (\<lambda>j. HttpGet (currentPage + 1 + j) 0 True) [0..<K]"
      by blast
    from ev2 obtain evs2 where evs2: "trace w' = trace w1 @ evs2"
      "outline evs2 = map (\<lambda>j. HttpGet (currentPage + 1 + j) 0 True) [0..<K]" by blast
    have "fetchAllPages_loop fuel env currentPage allUsers w =
        Some (Inr (allUsers @ concat (map pg [0..<Suc K])), w')"
      unfolding fuel using run d True rec by (auto simp: map_upt_Suc_shift simp del: upt_Suc)
    moreover have "trace w' = trace w @ (evs1 @ evs2)" using evs1 evs2 by simp
    moreover have "outline (evs1 @ evs2) = map (\<lambda>j. HttpGet (currentPage + j) 0 True) [0..<Suc K]"
      using evs1 evs2 by (simp add: map_upt_Suc_shift del: upt_Suc)
    ultimately show ?thesis using frame frame' by (metis add_Suc_shift)
  qed
qed

lemma getCheckpoint_frame:
  assumes "getCheckpoint env w = (r, w1)"
  shows "db w1 = db w" and "n_db w1 = Suc (n_db w)" and "n_http w1 = n_http w"
    and "trace w1 = trace w @ [SelectCheckpoint]"
  using assms
  by (auto simp: getCheckpoint_def store_call_def emit_def Let_def
      split: option.splits prod.splits sum.splits if_splits)

lemma getCheckpoint_depends:
  "db_fault env' (n_db w') = db_fault env (n_db w) \<Longrightarrow>
   id_sync_state (db w') = id_sync_state (db w) \<Longrightarrow>
   fst (getCheckpoint env' w') = fst (getCheckpoint env w)"
  by (auto simp: getCheckpoint_def store_call_def emit_def Let_def
      split: option.splits prod.splits sum.splits if_splits)

text \<open>
  C10. Suppose \<^verbatim>\<open>getCheckpoint\<close> finds no checkpoint and the feed answers pages 1 to K
  with no users, reporting a next page on all but the last. Then \<^verbatim>\<open>syncUsers\<close> returns
  without error, given fuel for K pages; all it does is read the checkpoint and request
  pages 1 to K once each (no upsert, no second request for page 1, no checkpoint write);
  the store is as before, so a later run whose checkpoint read fares alike finds no
  checkpoint again.
\<close>

theorem syncUsers_empty_feed:
  assumes "fst (getCheckpoint env w) = Inr None"
    and "\<forall>j<K. page_of (http_reply env (n_http w + j) (Suc j)) = Some ([], Suc j < K)"
    and "0 < K" and "K \<le> fuel"
  shows "\<exists>w'. syncUsers fuel env w = Some (Inr (), w') \<and>
           outline (new_events w w') = SelectCheckpoint # map (\<lambda>j. HttpGet (Suc j) 0 True) [0..<K] \<and>
           db w' = db w \<and>
           (\<forall>env'. db_fault env' (n_db w') = db_fault env (n_db w) \<longrightarrow>
               fst (getCheckpoint env' w') = Inr None)"
proof -
  obtain w0 where g: "getCheckpoint env w = (Inr None, w0)"
    using assms(1) by (cases "getCheckpoint env w") auto
  note f0 = getCheckpoint_frame [OF g]
  have "\<forall>j<K. page_of (http_reply env (n_http w0 + j) (1 + j)) = Some ([], Suc j < K)"
    using assms(2) f0 by simp
  from fetchAllPages_loop_run [OF this assms(3,4), of "[]"]
  obtain w' where run: "fetchAllPages_loop fuel env 1 [] w0 =
        Some (Inr ([] @ concat (map (\<lambda>j. []) [0..<K])), w')"
    and frame: "db w' = db w0" "n_db w' = n_db w0"
    and ev: "\<exists>evs. trace w' = trace w0 @ evs \<and>
              outline evs = map (\<lambda>j. HttpGet (1 + j) 0 True) [0..<K]"
    by blast
  from ev obtain evs where evs: "trace w' = trace w0 @ evs"
    "outline evs = map (\<lambda>j. HttpGet (1 + j) 0 True) [0..<K]" by blast
  have res: "syncUsers fuel env w = Some (Inr (), w')"
    using g run by (simp add: syncUsers_def fullSync_def fetchAllPages_def)
  have "trace w' = trace w @ (SelectCheckpoint # evs)" using evs f0 by simp
  then have out: "outline (new_events w w') = SelectCheckpoint # map (\<lambda>j. HttpGet (Suc j) 0 True) [0..<K]"
    using evs by simp
  have dbeq: "db w' = db w" using frame f0 by simp
  have "\<forall>env'. db_fault env' (n_db w') = db_fault env (n_db w) \<longrightarrow>
               fst (getCheckpoint env' w') = Inr None"
    using getCheckpoint_depends [of _ w' env w] dbeq assms(1) by simp
  with res out dbeq show ?thesis by blast
qed


theorem insertUsers_never_throws_witness:
  "[mk_user ''u1''] \<noteq> [] \<and>
   insertUsers (quiet_env empty_feed) (Some [mk_user ''u1'']) (process_start 0 empty_store) \<noteq>
     (Inr 0, process_start 0 empty_store) \<and>
   fst (insertUsers (quiet_env empty_feed) (Some [mk_user ''u1'']) (process_start 0 empty_store)) = Inr 1 \<and>
   new_events (process_start 0 empty_store)
     (snd (insertUsers (quiet_env empty_feed) (Some [mk_user ''u1'']) (process_start 0 empty_store))) =
     [UpsertUsers [mk_user ''u1''] True]"
  using insertUsers_never_throws [of "quiet_env empty_feed" "Some [mk_user ''u1'']"
      "process_start 0 empty_store" "[mk_user ''u1'']"]
  by (auto simp: quiet_env_def process_start_def)

theorem syncUsers_empty_feed_witness:
  "fst (getCheckpoint (quiet_env empty_feed) (process_start 0 empty_store)) = Inr None \<and>
   page_of (http_reply (quiet_env empty_feed) 0 1) = Some ([], False) \<and>
   map_option fst (syncUsers 1 (quiet_env empty_feed) (process_start 0 empty_store)) = Some (Inr ())"
proof -
  let ?E = "quiet_env empty_feed" and ?W = "process_start 0 empty_store"
  have h1: "fst (getCheckpoint ?E ?W) = Inr None"
    by (simp add: getCheckpoint_def store_call_def emit_def quiet_env_def process_start_def
        empty_store_def Let_def)
  have h0: "page_of (http_reply ?E 0 1) = Some ([], False)"
    by (simp add: page_of_def quiet_env_def empty_feed_def ok_body_def usersOf_def hasNextPageOf_def)
  have h2: "\<forall>j<1. page_of (http_reply ?E (n_http ?W + j) (Suc j)) = Some ([], Suc j < 1)"
    using h0 by (simp add: process_start_def quiet_env_def empty_feed_def)
  from syncUsers_empty_feed [OF h1 h2, of 1]
  obtain w' where "syncUsers 1 ?E ?W = Some (Inr (), w')" by auto
  with h1 h0 show ?thesis by simp
qed

lemma insertUsers_run:
  assumes "us \<noteq> []"
  shows "\<exists>n w1. insertUsers env (Some us) w = (Inr n, w1) \<and>
     n_db w1 = Suc (n_db w) \<and> n_http w1 = n_http w \<and>
     id_sync_state (db w1) = id_sync_state (db w) \<and>
     trace w1 = trace w @ [UpsertUsers us (db_fault env (n_db w) = None)]"
  using assms
  by (cases "db_fault env (n_db w)")
    (simp_all add: insertUsers_def insertUsers_try_def store_call_def emit_def Let_def)

lemma updateCheckpoint_run:
  "\<exists>r w1. updateCheckpoint env uid w = (r, w1) \<and>
     trace w1 = trace w @ [UpsertCheckpoint uid (db_fault env (n_db w) = None)] \<and>
     (db_fault env (n_db w) = None \<longrightarrow>
           r = Inr () \<and> id_sync_state (db w1) = Some \<lparr>value = uid, updated_at = clock w\<rparr>) \<and>
     (db_fault env (n_db w) \<noteq> None \<longrightarrow> (\<exists>e. r = Inl e) \<and> db w1 = db w)"
  by (cases "db_fault env (n_db w)")
    (simp_all add: updateCheckpoint_def store_call_def emit_def Let_def)

lemma upsert_ignoreDuplicates_present:
  "id_users_row.user_id ` set rows \<subseteq> id_users_row.user_id ` set tbl \<Longrightarrow>
   upsert_ignoreDuplicates tbl rows = tbl"
  by (induction rows arbitrary: tbl) auto

lemma upsert_ignoreDuplicates_keys:
  "id_users_row.user_id ` set (upsert_ignoreDuplicates tbl rows) =
     id_users_row.user_id ` set tbl \<union> id_users_row.user_id ` set rows"
  by (induction rows arbitrary: tbl) auto

lemma upsert_ignoreDuplicates_idem:
  "upsert_ignoreDuplicates (upsert_ignoreDuplicates tbl rows) rows = upsert_ignoreDuplicates tbl rows"
  by (rule upsert_ignoreDuplicates_present) (simp add: upsert_ignoreDuplicates_keys)

lemma full_sync_run:
  assumes "fst (getCheckpoint env w) = Inr None"
    and "\<forall>j<K. page_of (http_reply env (n_http w + j) (Suc j)) = Some (pg j, Suc j < K)"
    and "0 < K" and "K \<le> fuel"
    and "concat (map pg [0..<K]) \<noteq> []"
    and "page_of (http_reply env (n_http w + K) 1) = Some (u # rest, nx)"
  shows "\<exists>r w'. syncUsers fuel env w = Some (r, w') \<and>
           outline (new_events w w') =
             SelectCheckpoint # map (\<lambda>j. HttpGet (Suc j) 0 True) [0..<K] @
               [UpsertUsers (concat (map pg [0..<K])) (db_fault env (Suc (n_db w)) = None),
                HttpGet 1 0 True,
                UpsertCheckpoint (user_id u) (db_fault env (Suc (Suc (n_db w))) = None)] \<and>
           (db_fault env (Suc (Suc (n_db w))) = None \<longrightarrow>
              r = Inr () \<and> map_option value (id_sync_state (db w')) = Some (user_id u))"
proof -
  let ?all = "concat (map pg [0..<K])"
  obtain w0 where g: "getCheckpoint env w = (Inr None, w0)"
    using assms(1) by (cases "getCheckpoint env w") auto
  note f0 = getCheckpoint_frame [OF g]
  have "\<forall>j<K. page_of (http_reply env (n_http w0 + j) (1 + j)) = Some (pg j, Suc j < K)"
    using assms(2) f0 by simp
  from fetchAllPages_loop_run [OF this assms(3,4), of "[]"]
  obtain w1 where run: "fetchAllPages_loop fuel env 1 [] w0 = Some (Inr ([] @ ?all), w1)"
    and f1: "db w1 = db w0" "n_db w1 = n_db w0" "n_http w1 = n_http w0 + K"
    and ev: "\<exists>evs. trace w1 = trace w0 @ evs \<and>
              outline evs = map (\<lambda>j. HttpGet (1 + j) 0 True) [0..<K]"
    by blast
  from ev obtain evs1 where evs1: "trace w1 = trace w0 @ evs1"
    "outline evs1 = map (\<lambda>j. HttpGet (1 + j) 0 True) [0..<K]" by blast
  from insertUsers_run [OF assms(5), of env w1]
  obtain n w2 where ins: "insertUsers env (Some ?all) w1 = (Inr n, w2)"
    and f2: "n_db w2 = Suc (n_db w1)" "n_http w2 = n_http w1"
    and tr2: "trace w2 = trace w1 @ [UpsertUsers ?all (db_fault env (n_db w1) = None)]"
    by blast
  have "page_of (http_reply env (n_http w2) 1) = Some (u # rest, nx)"
    using assms(6) f0 f1 f2 by simp
  then obtain d w3 where re: "fetchUsersPage env 1 w2 = (Inr (Some d), w3)"
    and d: "usersOf d = u # rest"
    and f3: "n_db w3 = n_db w2"
    and ev3: "\<exists>evs. trace w3 = trace w2 @ evs \<and> outline evs = [HttpGet 1 0 True]"
    by (rule fetchUsersPage_ok_run)
  from ev3 obtain evs3 where evs3: "trace w3 = trace w2 @ evs3" "outline evs3 = [HttpGet 1 0 True]"
    by blast
  from updateCheckpoint_run [of env "user_id u" w3]
  obtain r w' where up: "updateCheckpoint env (user_id u) w3 = (r, w')"
    and tr4: "trace w' = trace w3 @ [UpsertCheckpoint (user_id u) (db_fault env (n_db w3) = None)]"
    and ok: "db_fault env (n_db w3) = None \<longrightarrow>
           r = Inr () \<and> id_sync_state (db w') = Some \<lparr>value = user_id u, updated_at = clock w3\<rparr>"
    by auto
  have n3: "n_db w3 = Suc (Suc (n_db w))" and n1: "n_db w1 = Suc (n_db w)"
    using f0 f1 f2 f3 by simp_all
  have res: "syncUsers fuel env w = Some (r, w')"
    using g run assms(5) ins re d up
    by (simp add: syncUsers_def fullSync_def fetchAllPages_def insertAllAndSetCheckpoint_def)
  have "trace w' = trace w @ (SelectCheckpoint # evs1 @
      [UpsertUsers ?all (db_fault env (Suc (n_db w)) = None)] @ evs3 @
      [UpsertCheckpoint (user_id u) (db_fault env (Suc (Suc (n_db w))) = None)])"
    using f0(4) evs1(1) tr2 evs3(1) tr4 n1 n3 by simp
  then have out: "outline (new_events w w') =
             SelectCheckpoint # map (\<lambda>j. HttpGet (Suc j) 0 True) [0..<K] @
               [UpsertUsers ?all (db_fault env (Suc (n_db w)) = None),
                HttpGet 1 0 True,
                UpsertCheckpoint (user_id u) (db_fault env (Suc (Suc (n_db w))) = None)]"
    using evs1(2) evs3(2) by simp
  have "db_fault env (Suc (Suc (n_db w))) = None \<longrightarrow>
      r = Inr () \<and> map_option value (id_sync_state (db w')) = Some (user_id u)"
    using ok n3 by simp
  with res out show ?thesis
    by (intro exI [of _ r] exI [of _ w']) simp
qed


lemma insertUsers_store:
  assumes "us \<noteq> []"
  shows "id_users (db (snd (insertUsers env (Some us) w))) =
     (if db_fault env (n_db w) = None
      then upsert_ignoreDuplicates (id_users (db w)) (map (toDbUser (clock w)) us)
      else id_users (db w))"
  using assms
  by (cases "db_fault env (n_db w)")
    (simp_all add: insertUsers_def insertUsers_try_def store_call_def emit_def Let_def)

lemma updateCheckpoint_table:
  "id_users (db (snd (updateCheckpoint env uid w))) = id_users (db w)"
  by (cases "db_fault env (n_db w)")
    (simp_all add: updateCheckpoint_def store_call_def emit_def Let_def)

lemma full_sync_table:
  assumes "fst (getCheckpoint env w) = Inr None"
    and "\<forall>j<K. page_of (http_reply env (n_http w + j) (Suc j)) = Some (pg j, Suc j < K)"
    and "0 < K" and "K \<le> fuel"
    and "concat (map pg [0..<K]) \<noteq> []"
    and "page_of (http_reply env (n_http w + K) 1) = Some (u # rest, nx)"
  shows "\<exists>r w' t. syncUsers fuel env w = Some (r, w') \<and>
           id_users (db w') =
             (if db_fault env (Suc (n_db w)) = None
              then upsert_ignoreDuplicates (id_users (db w))
                     (map (toDbUser t) (concat (map pg [0..<K])))
              else id_users (db w))"
proof -
  let ?all = "concat (map pg [0..<K])"
  obtain w0 where g: "getCheckpoint env w = (Inr None, w0)"
    using assms(1) by (cases "getCheckpoint env w") auto
  note f0 = getCheckpoint_frame [OF g]
  have "\<forall>j<K. page_of (http_reply env (n_http w0 + j) (1 + j)) = Some (pg j, Suc j < K)"
    using assms(2) f0 by simp
  from fetchAllPages_loop_run [OF this assms(3,4), of "[]"]
  obtain w1 where run: "fetchAllPages_loop fuel env 1 [] w0 = Some (Inr ([] @ ?all), w1)"
    and f1: "db w1 = db w0" "n_db w1 = n_db w0" "n_http w1 = n_http w0 + K"
    by blast
  obtain r2 w2 where ins: "insertUsers env (Some ?all) w1 = (r2, w2)"
    by (cases "insertUsers env (Some ?all) w1")
  from insertUsers_frame [OF ins] obtain n where r2: "r2 = Inr n" and f2: "n_http w2 = n_http w1"
    by blast
  have tbl2: "id_users (db w2) =
      (if db_fault env (n_db w1) = None
       then upsert_ignoreDuplicates (id_users (db w1)) (map (toDbUser (clock w1)) ?all)
       else id_users (db w1))"
    using insertUsers_store [OF assms(5), of env w1] ins by simp
  have "page_of (http_reply env (n_http w2) 1) = Some (u # rest, nx)"
    using assms(6) f0 f1 f2 by simp
  then obtain d w3 where re: "fetchUsersPage env 1 w2 = (Inr (Some d), w3)"
    and d: "usersOf d = u # rest" and f3: "db w3 = db w2"
    by (rule fetchUsersPage_ok_run)
  obtain r w' where up: "updateCheckpoint env (user_id u) w3 = (r, w')"
    by (cases "updateCheckpoint env (user_id u) w3")
  have tbl4: "id_users (db w') = id_users (db w3)"
    using updateCheckpoint_table [of env "user_id u" w3] up by simp
  have res: "syncUsers fuel env w = Some (r, w')"
    using g run assms(5) ins r2 re d up
    by (simp add: syncUsers_def fullSync_def fetchAllPages_def insertAllAndSetCheckpoint_def)
  have "id_users (db w') =
      (if db_fault env (Suc (n_db w)) = None
       then upsert_ignoreDuplicates (id_users (db w)) (map (toDbUser (clock w1)) ?all)
       else id_users (db w))"
    using tbl4 f3 tbl2 f1 f0 by simp
  with res show ?thesis by blast
qed

lemma no_checkpoint_at_start:
  "fst (getCheckpoint (quiet_env feed) (process_start t0 empty_store)) = Inr None"
  by (simp add: getCheckpoint_def store_call_def emit_def quiet_env_def process_start_def
      empty_store_def Let_def)

lemma page_of_ok_body [simp]: "page_of (Response (Some (ok_body us nx))) = Some (us, nx)"
  by (simp add: page_of_def ok_body_def usersOf_def hasNextPageOf_def)

lemma quiet_env_simps [simp]:
  "http_reply (quiet_env feed) = feed"
  "db_fault (quiet_env feed) k = None"
  by (simp_all add: quiet_env_def)

lemma process_start_simps [simp]:
  "n_http (process_start t0 st) = 0"
  "n_db (process_start t0 st) = 0"
  "trace (process_start t0 st) = []"
  "db (process_start t0 st) = st"
  by (simp_all add: process_start_def)

lemma new_events_from_start [simp]: "new_events (process_start t0 st) w' = trace w'"
  by (simp add: new_events_def)

lemma no_checkpoint_in_store:
  "id_sync_state st = None \<Longrightarrow>
   fst (getCheckpoint (quiet_env feed) (process_start t0 st)) = Inr None"
  by (simp add: getCheckpoint_def store_call_def emit_def quiet_env_def process_start_def Let_def)

text \<open>
  C5. Full sync on a feed whose second page is empty while reporting a next page. The
  table holds user \<^verbatim>\<open>u1\<close> and there is no checkpoint; page 1 holds \<^verbatim>\<open>u1\<close>, page 2 holds
  nothing, page 3 holds \<^verbatim>\<open>u3\<close> and reports no next page. The loop of \<^verbatim>\<open>fetchAllPages\<close>
  guards only the accumulation with the test on the page's length and goes on to page 3
  (the loop of \<^verbatim>\<open>fetchIncrementalPages\<close> leaves at an empty page). The records of
  pages 1 and 3 are handed to the store in one upsert call, which keeps the row of \<^verbatim>\<open>u1\<close>
  and adds \<^verbatim>\<open>u3\<close>; page 1 is then requested again and \<^verbatim>\<open>u1\<close> written as the checkpoint.
\<close>

theorem fullSync_continues_past_empty_page:
  "map id_users_row.user_id (id_users (one_user_store None)) = [''u1''] \<and>
   page_of (gap_feed 1 2) = Some ([], True) \<and>
   map_option (outline \<circ> trace \<circ> snd)
       (syncUsers 3 (quiet_env gap_feed) (process_start 0 (one_user_store None))) =
     Some [SelectCheckpoint, HttpGet 1 0 True, HttpGet 2 0 True, HttpGet 3 0 True,
           UpsertUsers [mk_user ''u1'', mk_user ''u3''] True, HttpGet 1 0 True,
           UpsertCheckpoint ''u1'' True] \<and>
   map_option (map id_users_row.user_id \<circ> id_users \<circ> db \<circ> snd)
       (syncUsers 3 (quiet_env gap_feed) (process_start 0 (one_user_store None))) =
     Some [''u1'', ''u3'']"
proof -
  let ?E = "quiet_env gap_feed" and ?W = "process_start 0 (one_user_store None)"
  let ?pg = "\<lambda>j::nat. if j = 0 then [mk_user ''u1''] else if j = 1 then [] else [mk_user ''u3'']"
  have h1: "fst (getCheckpoint ?E ?W) = Inr None"
    by (rule no_checkpoint_in_store) (simp add: one_user_store_def)
  have h2: "\<forall>j<3. page_of (http_reply ?E (n_http ?W + j) (Suc j)) = Some (?pg j, Suc j < 3)"
    by (auto simp: gap_feed_def less_Suc_eq numeral_3_eq_3)
  have h3: "concat (map ?pg [0..<3]) \<noteq> []" by (simp add: upt_rec)
  have h4: "page_of (http_reply ?E (n_http ?W + 3) 1) = Some (mk_user ''u1'' # [], True)"
    by (simp add: gap_feed_def)
  have m: "map (\<lambda>j. HttpGet (Suc j) 0 True) [0..<3] =
      [HttpGet 1 0 True, HttpGet 2 0 True, HttpGet 3 0 True]"
    by (simp add: upt_rec numeral_3_eq_3)
  have c: "concat (map ?pg [0..<3]) = [mk_user ''u1'', mk_user ''u3'']"
    by (simp add: upt_rec)
  have u: "user_id (mk_user ''u1'') = ''u1''" by (simp add: mk_user_def)
  have t0: "map id_users_row.user_id (id_users (one_user_store None)) = [''u1'']"
    by (simp add: one_user_store_def)
  have t: "map id_users_row.user_id
      (upsert_ignoreDuplicates (id_users (one_user_store None))
         (map (toDbUser t) [mk_user ''u1'', mk_user ''u3''])) = [''u1'', ''u3'']" for t
    by (simp add: one_user_store_def toDbUser_def mk_user_def)
  from full_sync_run [OF h1 h2 _ _ h3 h4, of 3, unfolded m c u]
  have a: "\<exists>r w'. syncUsers 3 ?E ?W = Some (r, w') \<and>
      outline (trace w') = [SelectCheckpoint, HttpGet 1 0 True, HttpGet 2 0 True,
           HttpGet 3 0 True, UpsertUsers [mk_user ''u1'', mk_user ''u3''] True, HttpGet 1 0 True,
           UpsertCheckpoint ''u1'' True]"
    by auto
  from full_sync_table [OF h1 h2 _ _ h3 h4, of 3, unfolded c]
  have b: "\<exists>r w'. syncUsers 3 ?E ?W = Some (r, w') \<and>
      map id_users_row.user_id (id_users (db w')) = [''u1'', ''u3'']"
    using t by auto
  from a b t0 show ?thesis by (auto simp: gap_feed_def)
qed


lemma findIndex_Some_nonempty: "findIndex p xs = Some i \<Longrightarrow> xs \<noteq> []"
  by (cases xs) auto

lemma findIndex_Some_less: "findIndex p xs = Some i \<Longrightarrow> i < length xs"
  by (induction xs arbitrary: i) (auto split: if_splits)

lemma fetchIncrementalPages_loop_run:
  assumes "\<forall>j<n. page_of (http_reply env (n_http w + j) (currentPage + j)) = Some (pg j, True) \<and>
             pg j \<noteq> [] \<and> findIndex (\<lambda>user. user_id user = cp) (pg j) = None"
    and "page_of (http_reply env (n_http w + n) (currentPage + n)) = Some (pg n, nx)"
    and "findIndex (\<lambda>user. user_id user = cp) (pg n) = Some i"
    and "n < fuel" and "0 < currentPage"
  shows "\<exists>total w'. fetchIncrementalPages_loop fuel env cp currentPage first0 total0 w =
             Some (Inr (if currentPage = 1 then Some (user_id (hd (pg 0))) else first0, total), w') \<and>
           n_http w' = n_http w + Suc n \<and>
           (\<exists>evs. trace w' = trace w @ evs \<and>
              fetched_pages evs = map (\<lambda>j. currentPage + j) [0..<Suc n] \<and>
              upserts evs = map pg [0..<n] @ (if i = 0 then [] else [take i (pg n)]))"
  using assms
proof (induction n arbitrary: fuel currentPage first0 total0 w pg)
  case 0
  from "0.prems"(4) obtain fuel' where fuel: "fuel = Suc fuel'" by (cases fuel) auto
  from "0.prems"(2) have "page_of (http_reply env (n_http w) currentPage) = Some (pg 0, nx)"
    by simp
  then obtain d w1 where run: "fetchUsersPage env currentPage w = (Inr (Some d), w1)"
    and d: "usersOf d = pg 0"
    and frame: "n_http w1 = Suc (n_http w)"
    by (rule fetchUsersPage_ok_run)
  from fetchUsersPage_events [OF run] obtain evs1 where evs1: "trace w1 = trace w @ evs1"
    "fetched_pages evs1 = [currentPage]" "upserts evs1 = []" by blast
  from "0.prems"(3) obtain u rest where pg0: "pg 0 = u # rest"
    using findIndex_Some_nonempty by (cases "pg 0") auto
  let ?first = "if currentPage = 1 then Some (user_id u) else first0"
  show ?case
  proof (cases "i = 0")
    case True
    then have "fetchIncrementalPages_loop fuel env cp currentPage first0 total0 w =
        Some (Inr (?first, total0), w1)"
      unfolding fuel using run d pg0 "0.prems"(3) by (simp add: Let_def)
    with True evs1 frame pg0 show ?thesis by auto
  next
    case False
    then have ne: "take i (pg 0) \<noteq> []" using pg0 by simp
    from insertUsers_run [OF ne, of env w1]
    obtain k w2 where ins: "insertUsers env (Some (take i (pg 0))) w1 = (Inr k, w2)"
      and f2: "n_http w2 = n_http w1"
      and tr2: "trace w2 = trace w1 @ [UpsertUsers (take i (pg 0)) (db_fault env (n_db w1) = None)]"
      by blast
    have "fetchIncrementalPages_loop fuel env cp currentPage first0 total0 w =
        Some (Inr (?first, total0 + k), w2)"
      unfolding fuel using run d pg0 "0.prems"(3) ne ins False by (simp add: Let_def)
    moreover have "trace w2 = trace w @ (evs1 @ [UpsertUsers (take i (pg 0)) (db_fault env (n_db w1) = None)])"
      using evs1 tr2 by simp
    ultimately show ?thesis using False evs1 frame f2 pg0
      by (intro exI [of _ "total0 + k"] exI [of _ w2] conjI
          exI [of _ "evs1 @ [UpsertUsers (take i (pg 0)) (db_fault env (n_db w1) = None)]"])
        simp_all
  qed
next
  case (Suc n)
  from Suc.prems(4) obtain fuel' where fuel: "fuel = Suc fuel'" and fuel': "n < fuel'"
    by (cases fuel) auto
  from Suc.prems(1) have p0: "page_of (http_reply env (n_http w) currentPage) = Some (pg 0, True)"
    and ne: "pg 0 \<noteq> []" and nf: "findIndex (\<lambda>user. user_id user = cp) (pg 0) = None"
    by force+
  from p0 obtain d w1 where run: "fetchUsersPage env currentPage w = (Inr (Some d), w1)"
    and d: "usersOf d = pg 0" "hasNextPageOf d = True"
    and frame: "n_http w1 = Suc (n_http w)"
    by (rule fetchUsersPage_ok_run)
  from fetchUsersPage_events [OF run] obtain evs1 where evs1: "trace w1 = trace w @ evs1"
    "fetched_pages evs1 = [currentPage]" "upserts evs1 = []" by blast
  from ne obtain u rest where pg0: "pg 0 = u # rest" by (cases "pg 0") auto
  let ?first = "if currentPage = 1 then Some (user_id u) else first0"
  from insertUsers_run [OF ne, of env w1]
  obtain k w2 where ins: "insertUsers env (Some (pg 0)) w1 = (Inr k, w2)"
    and f2: "n_http w2 = n_http w1"
    and tr2: "trace w2 = trace w1 @ [UpsertUsers (pg 0) (db_fault env (n_db w1) = None)]"
    by blast
  have step: "fetchIncrementalPages_loop fuel env cp currentPage first0 total0 w =
      fetchIncrementalPages_loop fuel' env cp (currentPage + 1) ?first (total0 + k) w2"
    unfolding fuel using run d pg0 nf ins by (simp add: Let_def)
  have pre: "\<forall>j<n. page_of (http_reply env (n_http w2 + j) (currentPage + 1 + j)) =
        Some (pg (Suc j), True) \<and> pg (Suc j) \<noteq> [] \<and>
        findIndex (\<lambda>user. user_id user = cp) (pg (Suc j)) = None"
    using Suc.prems(1) frame f2 by fastforce
  have at: "page_of (http_reply env (n_http w2 + n) (currentPage + 1 + n)) = Some (pg (Suc n), nx)"
    using Suc.prems(2) frame f2 by simp
  have cp1: "currentPage + 1 \<noteq> 1" "0 < currentPage + 1" using Suc.prems(5) by simp_all
  from Suc.IH [of w2 "currentPage + 1" "\<lambda>j. pg (Suc j)" fuel' ?first "total0 + k",
      OF pre at Suc.prems(3) fuel' cp1(2)]
  have "\<exists>total w'. fetchIncrementalPages_loop fuel' env cp (currentPage + 1) ?first
        (total0 + k) w2 = Some (Inr (?first, total), w') \<and>
      n_http w' = n_http w2 + Suc n \<and>
      (\<exists>evs. trace w' = trace w2 @ evs \<and>
              fetched_pages evs = map (\<lambda>j. currentPage + 1 + j) [0..<Suc n] \<and>
              upserts evs = map (\<lambda>j. pg (Suc j)) [0..<n] @ (if i = 0 then [] else [take i (pg (Suc n))]))"
    unfolding if_not_P [OF cp1(1)] .
  then obtain total w' where rec: "fetchIncrementalPages_loop fuel' env cp (currentPage + 1) ?first
        (total0 + k) w2 = Some (Inr (?first, total), w')"
    and n': "n_http w' = n_http w2 + Suc n"
    and ev: "\<exists>evs. trace w' = trace w2 @ evs \<and>
              fetched_pages evs = map (\<lambda>j. currentPage + 1 + j) [0..<Suc n] \<and>
              upserts evs = map (\<lambda>j. pg (Suc j)) [0..<n] @ (if i = 0 then [] else [take i (pg (Suc n))])"
    by blast
  from ev obtain evs2 where evs2: "trace w' = trace w2 @ evs2"
    "fetched_pages evs2 = map (\<lambda>j. currentPage + 1 + j) [0..<Suc n]"
    "upserts evs2 = map (\<lambda>j. pg (Suc j)) [0..<n] @ (if i = 0 then [] else [take i (pg (Suc n))])"
    by blast
  let ?evs = "evs1 @ [UpsertUsers (pg 0) (db_fault env (n_db w1) = None)] @ evs2"
  have "trace w' = trace w @ ?evs" using evs1 tr2 evs2 by simp
  moreover have "fetched_pages ?evs = map (\<lambda>j. currentPage + j) [0..<Suc (Suc n)]"
    using evs1 evs2 by (simp add: map_upt_Suc_shift del: upt_Suc)
  moreover have "upserts ?evs = map pg [0..<Suc n] @ (if i = 0 then [] else [take i (pg (Suc n))])"
    using evs1 evs2 by (simp add: map_upt_Suc_shift del: upt_Suc)
  moreover have "fetchIncrementalPages_loop fuel env cp currentPage first0 total0 w =
             Some (Inr (if currentPage = 1 then Some (user_id (hd (pg 0))) else first0, total), w')"
    using step rec pg0 by simp
  moreover have "n_http w' = n_http w + Suc (Suc n)" using n' f2 frame by simp
  ultimately show ?case by blast
qed


lemma determineCheckpoint_events:
  assumes "determineCheckpoint env first w = (r, w')"
  shows "\<exists>evs. trace w' = trace w @ evs \<and> upserts evs = [] \<and>
           fetched_pages evs = (if truthy first then [] else [1]) \<and>
           (\<forall>ev\<in>set evs. \<not> is_checkpoint_write ev)"
proof (cases "truthy first")
  case True
  then have "w' = w" using assms
    by (auto simp: determineCheckpoint_def truthy_def split: option.splits if_splits)
  with True show ?thesis by simp
next
  case False
  obtain r1 w1 where f: "fetchUsersPage env 1 w = (r1, w1)" by (cases "fetchUsersPage env 1 w")
  have "w' = w1" using assms False f
    by (auto simp: determineCheckpoint_def split: option.splits sum.splits list.splits if_splits)
  with fetchUsersPage_events [OF f] False show ?thesis by auto
qed

lemma determineCheckpoint_truthy:
  "truthy (Some uid) \<Longrightarrow> determineCheckpoint env (Some uid) w = (Inr uid, w)"
  by (simp add: determineCheckpoint_def truthy_def)

lemma upt_shift: "map (\<lambda>j. f (Suc j)) [0..<n] = map f [1..<Suc n]"
  by (simp add: map_Suc_upt [symmetric] del: upt_Suc)

text \<open>
  C1. Take an incremental run in which the checkpoint is first found at index \<open>i\<close> of page
  \<open>p\<close>: pages 1 to \<open>p - 1\<close> come back with records, none of them the checkpoint, and
  report a next page; page \<open>p\<close> comes back holding the checkpoint at index \<open>i\<close>. Then
  \<^verbatim>\<open>fetchIncrementalPages\<close> returns, given fuel for \<open>p\<close> pages; its upsert calls are, in
  order, one per page 1 to \<open>p - 1\<close> with the whole page, then one with the first \<open>i\<close> records
  of page \<open>p\<close> when \<open>i > 0\<close>; and no page after \<open>p\<close> is requested: the requests are pages
  1 to \<open>p\<close> in order, followed by one more request for page 1 only when the \<^verbatim>\<open>user_id\<close> at
  the head of page 1 is the empty string. (Pages 1 to \<open>p\<close> all hold a record, so \<open>hd\<close> is
  applied to a list that is not empty.)
\<close>

theorem fetchIncrementalPages_stops_at_checkpoint:
  assumes "0 < p" and "p \<le> fuel"
    and "\<forall>q. 0 < q \<and> q < p \<longrightarrow>
           page_of (http_reply env (n_http w + q - 1) q) = Some (pg q, True) \<and> pg q \<noteq> [] \<and>
           findIndex (\<lambda>user. user_id user = checkpointUserId) (pg q) = None"
    and "page_of (http_reply env (n_http w + p - 1) p) = Some (pg p, nx)"
    and "findIndex (\<lambda>user. user_id user = checkpointUserId) (pg p) = Some i"
  shows "\<exists>r w'. fetchIncrementalPages fuel env checkpointUserId w = Some (r, w') \<and>
           upserts (new_events w w') = map pg [1..<p] @ (if i = 0 then [] else [take i (pg p)]) \<and>
           fetched_pages (new_events w w') =
             [1..<Suc p] @ (if user_id (hd (pg 1)) = [] then [1] else []) \<and>
           (\<forall>q\<in>set (fetched_pages (new_events w w')). q \<le> p) \<and>
           (user_id (hd (pg 1)) \<noteq> [] \<longrightarrow> r = Inr (user_id (hd (pg 1))))"
proof -
  obtain n where p: "p = Suc n" using assms(1) by (cases p) auto
  let ?pg = "\<lambda>j. pg (Suc j)"
  have pre: "\<forall>j<n. page_of (http_reply env (n_http w + j) (1 + j)) = Some (?pg j, True) \<and>
             ?pg j \<noteq> [] \<and> findIndex (\<lambda>user. user_id user = checkpointUserId) (?pg j) = None"
  proof (intro allI impI)
    fix j assume "j < n"
    then have "0 < Suc j \<and> Suc j < p" using p by simp
    with assms(3) show "page_of (http_reply env (n_http w + j) (1 + j)) = Some (?pg j, True) \<and>
             ?pg j \<noteq> [] \<and> findIndex (\<lambda>user. user_id user = checkpointUserId) (?pg j) = None"
      by fastforce
  qed
  have at: "page_of (http_reply env (n_http w + n) (1 + n)) = Some (?pg n, nx)"
    using assms(4) p by simp
  have fi: "findIndex (\<lambda>user. user_id user = checkpointUserId) (?pg n) = Some i"
    using assms(5) p by simp
  have fuel: "n < fuel" using assms(2) p by simp
  from fetchIncrementalPages_loop_run [of n env w 1 ?pg checkpointUserId nx i fuel None 0,
      OF pre at fi fuel]
  obtain total w1 where loop: "fetchIncrementalPages_loop fuel env checkpointUserId 1 None 0 w =
        Some (Inr (Some (user_id (hd (pg 1))), total), w1)"
    and ev: "\<exists>evs. trace w1 = trace w @ evs \<and>
              fetched_pages evs = map (\<lambda>j. 1 + j) [0..<Suc n] \<and>
              upserts evs = map ?pg [0..<n] @ (if i = 0 then [] else [take i (?pg n)])"
    by auto
  from ev obtain evs1 where evs1: "trace w1 = trace w @ evs1"
    "fetched_pages evs1 = map (\<lambda>j. 1 + j) [0..<Suc n]"
    "upserts evs1 = map ?pg [0..<n] @ (if i = 0 then [] else [take i (?pg n)])"
    by blast
  let ?first = "Some (user_id (hd (pg 1)))"
  obtain r w' where det: "determineCheckpoint env ?first w1 = (r, w')"
    by (cases "determineCheckpoint env ?first w1")
  from determineCheckpoint_events [OF det] obtain evs2 where evs2: "trace w' = trace w1 @ evs2"
    "upserts evs2 = []" "fetched_pages evs2 = (if truthy ?first then [] else [1])"
    by blast
  have res: "fetchIncrementalPages fuel env checkpointUserId w = Some (r, w')"
    using loop det by (simp add: fetchIncrementalPages_def)
  have tr: "new_events w w' = evs1 @ evs2" using evs1 evs2 by simp
  have f1: "map (\<lambda>j. 1 + j) [0..<Suc n] = [1..<Suc p]"
    unfolding p using upt_shift [of "\<lambda>j. j" "Suc n"] by simp
  have u1: "map ?pg [0..<n] = map pg [1..<p]" unfolding p by (rule upt_shift)
  have ups: "upserts (new_events w w') = map pg [1..<p] @ (if i = 0 then [] else [take i (pg p)])"
    unfolding tr using evs1(3) evs2(2) u1 p by simp
  have fet: "fetched_pages (new_events w w') =
      [1..<Suc p] @ (if user_id (hd (pg 1)) = [] then [1] else [])"
    unfolding tr using evs1(2) evs2(3) f1 by (simp add: truthy_def)
  have bound: "\<forall>q\<in>set (fetched_pages (new_events w w')). q \<le> p"
    unfolding fet using assms(1) by auto
  have "user_id (hd (pg 1)) \<noteq> [] \<longrightarrow> r = Inr (user_id (hd (pg 1)))"
    using det determineCheckpoint_truthy [of "user_id (hd (pg 1))" env w1]
    by (auto simp: truthy_def)
  with res ups fet bound show ?thesis by blast
qed


theorem fetchIncrementalPages_stops_at_checkpoint_witness:
  "page_of (incr_feed 0 1) = Some ([mk_user ''n1'', mk_user ''n2''], True) \<and>
   page_of (incr_feed 1 2) = Some ([mk_user ''n3'', mk_user ''old1'', mk_user ''old2''], True) \<and>
   findIndex (\<lambda>user. user_id user = ''old1'') [mk_user ''n3'', mk_user ''old1'', mk_user ''old2''] = Some 1 \<and>
   map_option (upserts \<circ> trace \<circ> snd)
       (fetchIncrementalPages 2 (quiet_env incr_feed) ''old1'' (process_start 0 empty_store)) =
     Some [[mk_user ''n1'', mk_user ''n2''], [mk_user ''n3'']] \<and>
   map_option (fetched_pages \<circ> trace \<circ> snd)
       (fetchIncrementalPages 2 (quiet_env incr_feed) ''old1'' (process_start 0 empty_store)) =
     Some [1, 2]"
proof -
  let ?E = "quiet_env incr_feed" and ?W = "process_start 0 empty_store"
  let ?pg = "\<lambda>q::nat. if q = 1 then [mk_user ''n1'', mk_user ''n2'']
                      else [mk_user ''n3'', mk_user ''old1'', mk_user ''old2'']"
  have a1: "page_of (incr_feed 0 1) = Some ([mk_user ''n1'', mk_user ''n2''], True)"
    and a2: "page_of (incr_feed 1 2) = Some ([mk_user ''n3'', mk_user ''old1'', mk_user ''old2''], True)"
    by (simp_all add: incr_feed_def)
  have a3: "findIndex (\<lambda>user. user_id user = ''old1'')
      [mk_user ''n3'', mk_user ''old1'', mk_user ''old2''] = Some 1"
    by (simp add: mk_user_def)
  have h3: "\<forall>q. 0 < q \<and> q < 2 \<longrightarrow>
           page_of (http_reply ?E (n_http ?W + q - 1) q) = Some (?pg q, True) \<and> ?pg q \<noteq> [] \<and>
           findIndex (\<lambda>user. user_id user = ''old1'') (?pg q) = None"
  proof (intro allI impI)
    fix q :: nat assume "0 < q \<and> q < 2"
    then have "q = 1" by simp
    then show "page_of (http_reply ?E (n_http ?W + q - 1) q) = Some (?pg q, True) \<and> ?pg q \<noteq> [] \<and>
           findIndex (\<lambda>user. user_id user = ''old1'') (?pg q) = None"
      by (simp add: incr_feed_def mk_user_def)
  qed
  have h4: "page_of (http_reply ?E (n_http ?W + 2 - 1) 2) = Some (?pg 2, True)"
    by (simp add: incr_feed_def)
  have h5: "findIndex (\<lambda>user. user_id user = ''old1'') (?pg 2) = Some 1"
    using a3 by simp
  have m: "map ?pg [1..<2] = [[mk_user ''n1'', mk_user ''n2'']]"
    by (simp add: upt_rec)
  have t: "take 1 (?pg 2) = [mk_user ''n3'']" by simp
  have f: "[1..<Suc 2] = [1, 2::nat]" by (simp add: upt_rec)
  have u: "user_id (hd (?pg 1)) \<noteq> []" by (simp add: mk_user_def)
  from fetchIncrementalPages_stops_at_checkpoint [of 2 2 ?E ?W ?pg "''old1''" True 1, OF _ _ h3 h4 h5]
  have "\<exists>r w'. fetchIncrementalPages 2 ?E ''old1'' ?W = Some (r, w') \<and>
      upserts (trace w') = [[mk_user ''n1'', mk_user ''n2''], [mk_user ''n3'']] \<and>
      fetched_pages (trace w') = [1, 2]"
    unfolding m t f if_not_P [OF u] by auto
  with a1 a2 a3 show ?thesis by auto
qed

lemma keeps_checkpoint_refl [simp]: "keeps_checkpoint w w"
  by (simp add: keeps_checkpoint_def)

lemma keeps_checkpoint_trans:
  "keeps_checkpoint w w1 \<Longrightarrow> keeps_checkpoint w1 w2 \<Longrightarrow> keeps_checkpoint w w2"
  unfolding keeps_checkpoint_def by fastforce

lemma getCheckpoint_keeps: "getCheckpoint env w = (r, w1) \<Longrightarrow> keeps_checkpoint w w1"
  using getCheckpoint_frame [of env w r w1] by (simp add: keeps_checkpoint_def)

lemma fetchUsersPage_keeps: "fetchUsersPage env page w = (r, w1) \<Longrightarrow> keeps_checkpoint w w1"
  using fetchUsersPage_frame(1) [of env page w r w1] fetchUsersPage_events [of env page w r w1]
  by (auto simp: keeps_checkpoint_def)

lemma insertUsers_keeps: "insertUsers env arg w = (r, w1) \<Longrightarrow> keeps_checkpoint w w1"
  by (auto simp: keeps_checkpoint_def insertUsers_def insertUsers_try_def store_call_def emit_def
      Let_def split: option.splits prod.splits sum.splits if_splits)

lemma fetchAllPages_loop_keeps:
  "fetchAllPages_loop fuel env currentPage allUsers w = Some (r, w') \<Longrightarrow> keeps_checkpoint w w'"
proof (induction fuel arbitrary: currentPage allUsers w)
  case 0
  then show ?case by simp
next
  case (Suc fuel)
  obtain r1 w1 where f: "fetchUsersPage env currentPage w = (r1, w1)"
    by (cases "fetchUsersPage env currentPage w")
  note k1 = fetchUsersPage_keeps [OF f]
  show ?case
  proof (cases r1)
    case (Inl e)
    with Suc.prems f k1 show ?thesis by simp
  next
    case (Inr od)
    show ?thesis
    proof (cases od)
      case None
      with Suc.prems f k1 Inr show ?thesis by simp
    next
      case (Some d)
      show ?thesis
      proof (cases "hasNextPageOf d")
        case True
        with Suc.prems f Inr Some
        have "fetchAllPages_loop fuel env (currentPage + 1)
            (if length (usersOf d) > 0 then allUsers @ usersOf d else allUsers) w1 = Some (r, w')"
          by (simp add: Let_def)
        from Suc.IH [OF this] k1 show ?thesis by (rule keeps_checkpoint_trans [rotated])
      next
        case False
        with Suc.prems f k1 Inr Some show ?thesis by (auto simp: Let_def)
      qed
    qed
  qed
qed

lemma fetchIncrementalPages_loop_keeps:
  "fetchIncrementalPages_loop fuel env cp currentPage first tot w = Some (r, w') \<Longrightarrow>
   keeps_checkpoint w w'"
proof (induction fuel arbitrary: currentPage first tot w)
  case 0
  then show ?case by simp
next
  case (Suc fuel)
  obtain r1 w1 where f: "fetchUsersPage env currentPage w = (r1, w1)"
    by (cases "fetchUsersPage env currentPage w")
  note k1 = fetchUsersPage_keeps [OF f]
  show ?case
  proof (cases r1)
    case (Inl e)
    with Suc.prems f k1 show ?thesis by simp
  next
    case (Inr od)
    show ?thesis
    proof (cases od)
      case None
      with Suc.prems f k1 Inr show ?thesis by simp
    next
      case (Some d)
      show ?thesis
      proof (cases "usersOf d")
        case Nil
        with Suc.prems f k1 Inr Some show ?thesis by simp
      next
        case (Cons u rest)
        let ?first = "if currentPage = 1 then Some (user_id u) else first"
        show ?thesis
        proof (cases "findIndex (\<lambda>user. user_id user = cp) (u # rest)")
          case (Some i)
          obtain r2 w2 where ins: "insertUsers env (Some (take i (u # rest))) w1 = (r2, w2)"
            by (cases "insertUsers env (Some (take i (u # rest))) w1")
          from insertUsers_keeps [OF ins] k1 have k2: "keeps_checkpoint w w2"
            by (rule keeps_checkpoint_trans [rotated])
          from Suc.prems f Inr \<open>od = Some d\<close> Cons Some ins k1 k2 show ?thesis
            by (auto simp: Let_def split: if_splits sum.splits)
        next
          case None
          obtain r2 w2 where ins: "insertUsers env (Some (u # rest)) w1 = (r2, w2)"
            by (cases "insertUsers env (Some (u # rest)) w1")
          from insertUsers_keeps [OF ins] k1 have k2: "keeps_checkpoint w w2"
            by (rule keeps_checkpoint_trans [rotated])
          from insertUsers_frame(3) [OF ins] obtain k where r2: "r2 = Inr k" by blast
          show ?thesis
          proof (cases "hasNextPageOf d")
            case True
            with Suc.prems f Inr \<open>od = Some d\<close> Cons None ins r2
            have "fetchIncrementalPages_loop fuel env cp (currentPage + 1) ?first (tot + k) w2 =
                Some (r, w')"
              by (simp add: Let_def)
            from Suc.IH [OF this] k2 show ?thesis by (rule keeps_checkpoint_trans [rotated])
          next
            case False
            with Suc.prems f Inr \<open>od = Some d\<close> Cons None ins r2 k2 show ?thesis
              by (auto simp: Let_def)
          qed
        qed
      qed
    qed
  qed
qed

lemma determineCheckpoint_keeps:
  assumes "determineCheckpoint env first w = (r, w')"
  shows "keeps_checkpoint w w'"
proof (cases "truthy first")
  case True
  then have "w' = w" using assms
    by (auto simp: determineCheckpoint_def truthy_def split: option.splits if_splits)
  then show ?thesis by simp
next
  case False
  obtain r1 w1 where f: "fetchUsersPage env 1 w = (r1, w1)" by (cases "fetchUsersPage env 1 w")
  have "w' = w1" using assms False f
    by (auto simp: determineCheckpoint_def split: option.splits sum.splits list.splits if_splits)
  with fetchUsersPage_keeps [OF f] show ?thesis by simp
qed

text \<open>
  The shape of every run of \<^verbatim>\<open>syncUsers\<close> that ends: it leaves the checkpoint alone, or it
  does so up to a last step that is the call of \<^verbatim>\<open>updateCheckpoint\<close>.
\<close>

lemma syncUsers_shape:
  assumes "syncUsers fuel env w = Some (r, w')"
  shows "keeps_checkpoint w w' \<or>
         (\<exists>w2 uid. keeps_checkpoint w w2 \<and> updateCheckpoint env uid w2 = (r, w'))"
proof -
  obtain r0 w0 where g: "getCheckpoint env w = (r0, w0)" by (cases "getCheckpoint env w")
  note k0 = getCheckpoint_keeps [OF g]
  have full: "keeps_checkpoint w w' \<or>
         (\<exists>w2 uid. keeps_checkpoint w w2 \<and> updateCheckpoint env uid w2 = (r, w'))"
    if run: "fullSync fuel env w0 = Some (r, w')"
  proof -
    from run obtain r1 w1 where fa: "fetchAllPages_loop fuel env 1 [] w0 = Some (r1, w1)"
      by (auto simp: fullSync_def fetchAllPages_def split: option.splits)
    from fetchAllPages_loop_keeps [OF fa] k0 have k1: "keeps_checkpoint w w1"
      by (rule keeps_checkpoint_trans [rotated])
    show ?thesis
    proof (cases r1)
      case (Inl e)
      with run fa k1 show ?thesis by (simp add: fullSync_def fetchAllPages_def)
    next
      case (Inr allUsers)
      show ?thesis
      proof (cases "length allUsers > 0")
        case False
        with run fa k1 Inr show ?thesis by (simp add: fullSync_def fetchAllPages_def)
      next
        case True
        with run fa Inr have ia: "insertAllAndSetCheckpoint env allUsers w1 = (r, w')"
          by (simp add: fullSync_def fetchAllPages_def)
        obtain r2 w2 where ins: "insertUsers env (Some allUsers) w1 = (r2, w2)"
          by (cases "insertUsers env (Some allUsers) w1")
        from insertUsers_keeps [OF ins] k1 have k2: "keeps_checkpoint w w2"
          by (rule keeps_checkpoint_trans [rotated])
        from insertUsers_frame(3) [OF ins] obtain k where r2: "r2 = Inr k" by blast
        obtain r3 w3 where f: "fetchUsersPage env 1 w2 = (r3, w3)"
          by (cases "fetchUsersPage env 1 w2")
        from fetchUsersPage_keeps [OF f] k2 have k3: "keeps_checkpoint w w3"
          by (rule keeps_checkpoint_trans [rotated])
        from ia ins r2 f k3 show ?thesis
          by (auto simp: insertAllAndSetCheckpoint_def split: sum.splits option.splits list.splits)
      qed
    qed
  qed
  have incr: "keeps_checkpoint w w' \<or>
         (\<exists>w2 uid. keeps_checkpoint w w2 \<and> updateCheckpoint env uid w2 = (r, w'))"
    if run: "incrementalSync fuel env c w0 = Some (r, w')" for c
  proof -
    from run obtain r1 w1 where lp: "fetchIncrementalPages_loop fuel env c 1 None 0 w0 = Some (r1, w1)"
      by (auto simp: incrementalSync_def fetchIncrementalPages_def split: option.splits)
    from fetchIncrementalPages_loop_keeps [OF lp] k0 have k1: "keeps_checkpoint w w1"
      by (rule keeps_checkpoint_trans [rotated])
    show ?thesis
    proof (cases r1)
      case (Inl e)
      with run lp k1 show ?thesis by (simp add: incrementalSync_def fetchIncrementalPages_def)
    next
      case (Inr ft)
      obtain first tot where ft: "ft = (first, tot)" by (cases ft)
      obtain r2 w2 where det: "determineCheckpoint env first w1 = (r2, w2)"
        by (cases "determineCheckpoint env first w1")
      from determineCheckpoint_keeps [OF det] k1 have k2: "keeps_checkpoint w w2"
        by (rule keeps_checkpoint_trans [rotated])
      from run lp Inr ft det k2 show ?thesis
        by (auto simp: incrementalSync_def fetchIncrementalPages_def split: sum.splits)
    qed
  qed
  from assms g k0 full incr show ?thesis
    by (auto simp: syncUsers_def split: sum.splits option.splits if_splits)
qed

lemma updateCheckpoint_effect:
  assumes "updateCheckpoint env uid w = (r, w')"
  shows "\<exists>ok. trace w' = trace w @ [UpsertCheckpoint uid ok] \<and>
           ((\<exists>e. r = Inl e) \<longrightarrow> \<not> ok \<and> db w' = db w)"
  using assms
  by (cases "db_fault env (n_db w)")
    (auto simp: updateCheckpoint_def store_call_def emit_def Let_def)

text \<open>
  C2. For every run of \<^verbatim>\<open>syncUsers\<close> that ends: a checkpoint write, if the run makes
  one, is the last thing the run does, after every page request and every upsert call; and
  when the run fails (it throws: a page request failed, the store refused the checkpoint
  read or the checkpoint write, or no checkpoint could be determined), the checkpoint slot
  holds what it held before and no checkpoint write succeeded. A store error during an
  upsert does not make the run fail, for \<^verbatim>\<open>insertUsers\<close> swallows it.
\<close>

theorem syncUsers_checkpoint_last:
  assumes "syncUsers fuel env w = Some (r, w')"
  shows "(\<forall>ev\<in>set (butlast (new_events w w')). \<not> is_checkpoint_write ev) \<and>
         ((\<exists>e. r = Inl e) \<longrightarrow>
            id_sync_state (db w') = id_sync_state (db w) \<and>
            (\<forall>uid. UpsertCheckpoint uid True \<notin> set (new_events w w')))"
proof -
  from syncUsers_shape [OF assms] show ?thesis
  proof
    assume "keeps_checkpoint w w'"
    then obtain evs where st: "id_sync_state (db w') = id_sync_state (db w)"
      and tr: "trace w' = trace w @ evs" and no: "\<forall>ev\<in>set evs. \<not> is_checkpoint_write ev"
      by (auto simp: keeps_checkpoint_def)
    have "\<forall>ev\<in>set (butlast evs). \<not> is_checkpoint_write ev"
      using no by (meson in_set_butlastD)
    moreover have "\<forall>uid. UpsertCheckpoint uid True \<notin> set evs" using no by force
    ultimately show ?thesis using st tr by simp
  next
    assume "\<exists>w2 uid. keeps_checkpoint w w2 \<and> updateCheckpoint env uid w2 = (r, w')"
    then obtain w2 uid evs where st: "id_sync_state (db w2) = id_sync_state (db w)"
      and tr: "trace w2 = trace w @ evs" and no: "\<forall>ev\<in>set evs. \<not> is_checkpoint_write ev"
      and up: "updateCheckpoint env uid w2 = (r, w')"
      by (auto simp: keeps_checkpoint_def)
    from updateCheckpoint_effect [OF up] obtain ok where
      tr': "trace w' = trace w2 @ [UpsertCheckpoint uid ok]"
      and fail: "(\<exists>e. r = Inl e) \<longrightarrow> \<not> ok \<and> db w' = db w2" by blast
    have ne: "new_events w w' = evs @ [UpsertCheckpoint uid ok]" using tr tr' by simp
    have "\<forall>uid. UpsertCheckpoint uid True \<notin> set evs" using no by force
    with ne no st fail show ?thesis by auto
  qed
qed


lemma dead_feed_run:
  "\<exists>w'. syncUsers 1 (quiet_env dead_feed) (process_start 0 synced_store) =
     Some (Inl NetworkError, w')"
  by (simp add: syncUsers_def incrementalSync_def fetchIncrementalPages_def getCheckpoint_def
      store_call_def emit_def truthy_def fetchUsersPage_def fetchUsersPage_try_def
      fetchUsersPage_catch_def waitForRateLimit_def recordApiCall_def reaches_network_def
      quiet_env_def dead_feed_def process_start_def synced_store_def
      RATE_LIMIT_MAX_REQUESTS_def Let_def)

theorem syncUsers_checkpoint_last_witness:
  "map_option fst (syncUsers 1 (quiet_env dead_feed) (process_start 0 synced_store)) =
     Some (Inl NetworkError) \<and>
   map_option (id_sync_state \<circ> db \<circ> snd)
       (syncUsers 1 (quiet_env dead_feed) (process_start 0 synced_store)) =
     Some (Some \<lparr>value = ''old'', updated_at = 0\<rparr>)"
proof -
  from dead_feed_run obtain w' where
    run: "syncUsers 1 (quiet_env dead_feed) (process_start 0 synced_store) =
      Some (Inl NetworkError, w')" by blast
  from syncUsers_checkpoint_last [OF run]
  have "id_sync_state (db w') = id_sync_state (db (process_start 0 synced_store))" by simp
  then have "id_sync_state (db w') = Some \<lparr>value = ''old'', updated_at = 0\<rparr>"
    by (simp add: synced_store_def)
  with run show ?thesis by simp
qed

theorem syncUsers_checkpoint_last_counterexample:
  "id_sync_state (db (process_start 0 empty_store)) = None \<and>
   map_option fst (syncUsers 1 failing_upsert_env (process_start 0 empty_store)) = Some (Inr ()) \<and>
   map_option (outline \<circ> trace \<circ> snd)
       (syncUsers 1 failing_upsert_env (process_start 0 empty_store)) =
     Some [SelectCheckpoint, HttpGet 1 0 True, UpsertUsers [mk_user ''u1''] False,
           HttpGet 1 0 True, UpsertCheckpoint ''u1'' True] \<and>
   map_option (map_option value \<circ> id_sync_state \<circ> db \<circ> snd)
       (syncUsers 1 failing_upsert_env (process_start 0 empty_store)) = Some (Some ''u1'')"
proof -
  let ?E = "failing_upsert_env" and ?W = "process_start 0 empty_store"
  let ?pg = "\<lambda>j::nat. [mk_user ''u1'']"
  have e: "http_reply ?E = single_feed" "db_fault ?E 0 = None"
    "db_fault ?E (Suc 0) = Some \<lparr>code = ''500''\<rparr>" "db_fault ?E (Suc (Suc 0)) = None"
    by (simp_all add: failing_upsert_env_def)
  have h1: "fst (getCheckpoint ?E ?W) = Inr None"
    by (simp add: getCheckpoint_def store_call_def emit_def e empty_store_def Let_def)
  have h2: "\<forall>j<1. page_of (http_reply ?E (n_http ?W + j) (Suc j)) = Some (?pg j, Suc j < 1)"
    by (simp add: e single_feed_def)
  have h3: "concat (map ?pg [0..<1]) \<noteq> []" by simp
  have h4: "page_of (http_reply ?E (n_http ?W + 1) 1) = Some (mk_user ''u1'' # [], False)"
    by (simp add: e single_feed_def)
  have u: "user_id (mk_user ''u1'') = ''u1''" by (simp add: mk_user_def)
  from full_sync_run [OF h1 h2 _ _ h3 h4, of 1]
  have "\<exists>r w'. syncUsers 1 ?E ?W = Some (r, w') \<and>
      outline (trace w') = [SelectCheckpoint, HttpGet 1 0 True, UpsertUsers [mk_user ''u1''] False,
           HttpGet 1 0 True, UpsertCheckpoint ''u1'' True] \<and>
      r = Inr () \<and> map_option value (id_sync_state (db w')) = Some ''u1''"
    by (auto simp: e u)
  then show ?thesis by (auto simp: empty_store_def)
qed

section \<open>Properties of the enrichment service\<close>

lemma octet_values:
  "octet 10 = ''10''" "octet 172 = ''172''" "octet 192 = ''192''" "octet 168 = ''168''"
  "octet 127 = ''127''" "octet 169 = ''169''" "octet 254 = ''254''" "octet 0 = ''0''"
  by (simp_all add: octet_def digit_def)

lemma rx_test_lit_prefix: "rx_test (lit p) (p @ rest)"
  by (induction p) (simp_all add: rx_test_def)

lemma octet_16_31:
  assumes "16 \<le> b" and "b \<le> 31"
  shows "rx_test (Seq (Alt (Seq (Chr CHR ''1'') (OneOf ''6789''))
                (Alt (Seq (Chr CHR ''2'') (OneOf ''0123456789''))
                     (Seq (Chr CHR ''3'') (OneOf ''01''))))
             (Chr CHR ''.'')) (octet b @ ''.'' @ rest)"
proof -
  from assms have "b \<in> {16, 17, 18, 19, 20, 21, 22, 23, 24, 25, 26, 27, 28, 29, 30, 31}"
    by simp arith
  then show ?thesis
    by (elim insertE emptyE) (simp_all add: octet_def digit_def rx_test_def)
qed

lemma rx_test_Seq_lit:
  "rx_test r rest \<Longrightarrow> rx_test (Seq (lit p) r) (p @ rest)"
  by (induction p) (simp_all add: rx_test_def)

lemma isPrivateIP_blocks_aux:
  assumes "a = 10 \<or> (a = 172 \<and> 16 \<le> b \<and> b \<le> 31) \<or> (a = 192 \<and> b = 168) \<or> a = 127 \<or>
           (a = 169 \<and> b = 254) \<or> a = 0"
  shows "isPrivateIP (Some (dotted a b c d))"
proof -
  let ?rest = "octet c @ ''.'' @ octet d"
  have ne: "dotted a b c d \<noteq> []" by (simp add: dotted_def octet_def)
  from assms consider "a = 10" | "a = 172" "16 \<le> b" "b \<le> 31" | "a = 192" "b = 168"
    | "a = 127" | "a = 169" "b = 254" | "a = 0" by blast
  then have "list_ex (\<lambda>range. rx_test range (dotted a b c d)) privateRanges"
  proof cases
    case 1
    then have "dotted a b c d = ''10.'' @ (octet b @ ''.'' @ ?rest)"
      by (simp add: dotted_def octet_values)
    then have "rx_test (lit ''10.'') (dotted a b c d)" by (simp only: rx_test_lit_prefix)
    then show ?thesis by (simp add: privateRanges_def)
  next
    case 2
    then have "dotted a b c d = ''172.'' @ (octet b @ ''.'' @ ?rest)"
      by (simp add: dotted_def octet_values)
    then have "rx_test (privateRanges ! 1) (dotted a b c d)"
      using rx_test_Seq_lit [OF octet_16_31 [OF 2(2,3)], of "''172.''" ?rest]
      by (simp add: privateRanges_def)
    then show ?thesis by (simp add: privateRanges_def)
  next
    case 3
    then have "dotted a b c d = ''192.168.'' @ ?rest"
      by (simp add: dotted_def octet_values)
    then have "rx_test (lit ''192.168.'') (dotted a b c d)" by (simp only: rx_test_lit_prefix)
    then show ?thesis by (simp add: privateRanges_def)
  next
    case 4
    then have "dotted a b c d = ''127.'' @ (octet b @ ''.'' @ ?rest)"
      by (simp add: dotted_def octet_values)
    then have "rx_test (lit ''127.'') (dotted a b c d)" by (simp only: rx_test_lit_prefix)
    then show ?thesis by (simp add: privateRanges_def)
  next
    case 5
    then have "dotted a b c d = ''169.254.'' @ ?rest"
      by (simp add: dotted_def octet_values)
    then have "rx_test (lit ''169.254.'') (dotted a b c d)" by (simp only: rx_test_lit_prefix)
    then show ?thesis by (simp add: privateRanges_def)
  next
    case 6
    then have "dotted a b c d = ''0.'' @ (octet b @ ''.'' @ ?rest)"
      by (simp add: dotted_def octet_values)
    then have "rx_test (lit ''0.'') (dotted a b c d)" by (simp only: rx_test_lit_prefix)
    then show ?thesis by (simp add: privateRanges_def)
  qed
  with ne show ?thesis by (simp add: isPrivateIP_def)
qed

lemma isPrivateIP_examples:
  "isPrivateIP None"
  "isPrivateIP (Some ''10.0.0.1'')" "isPrivateIP (Some ''192.168.1.1'')"
  "isPrivateIP (Some ''127.0.0.1'')" "isPrivateIP (Some ''169.254.1.1'')"
  "isPrivateIP (Some ''0.0.0.1'')"
  "\<not> isPrivateIP (Some ''8.8.8.8'')" "\<not> isPrivateIP (Some ''1.1.1.1'')"
  by (simp_all add: isPrivateIP_def privateRanges_def rx_test_def)

text \<open>
  C8. \<^verbatim>\<open>isPrivateIP\<close> is true of every address, written in dotted decimal notation, of
  the blocks 10.0.0.0/8, 172.16.0.0/12, 192.168.0.0/16, 127.0.0.0/8, 169.254.0.0/16 and
  0.0.0.0/8 (the last two octets are free, and so is the second one where the block does
  not fix it), and of an absent address; it is true of 10.0.0.1, 192.168.1.1, 127.0.0.1,
  169.254.1.1 and 0.0.0.1, and false of 8.8.8.8 and 1.1.1.1. For an address it is true of,
  \<^verbatim>\<open>fetchGeolocationData\<close> returns null and does nothing else: no lookup is made.
\<close>

theorem isPrivateIP_blocks:
  "((a = 10 \<or> (a = 172 \<and> 16 \<le> b \<and> b \<le> 31) \<or> (a = 192 \<and> b = 168) \<or> a = 127 \<or>
     (a = 169 \<and> b = 254) \<or> a = 0) \<longrightarrow> isPrivateIP (Some (dotted a b c d))) \<and>
   isPrivateIP None \<and>
   isPrivateIP (Some ''10.0.0.1'') \<and> isPrivateIP (Some ''192.168.1.1'') \<and>
   isPrivateIP (Some ''127.0.0.1'') \<and> isPrivateIP (Some ''169.254.1.1'') \<and>
   isPrivateIP (Some ''0.0.0.1'') \<and>
   \<not> isPrivateIP (Some ''8.8.8.8'') \<and> \<not> isPrivateIP (Some ''1.1.1.1'') \<and>
   (isPrivateIP ip \<longrightarrow> fetchGeolocationData env ip w = (None, w))"
  using isPrivateIP_blocks_aux [of a b c d] isPrivateIP_examples
  by (simp add: fetchGeolocationData_def)

theorem isPrivateIP_blocks_witness:
  "dotted 172 31 255 254 = ''172.31.255.254'' \<and> isPrivateIP (Some ''172.31.255.254'') \<and>
   fetchGeolocationData (quiet_env empty_feed) (Some ''172.31.255.254'')
     (process_start 0 empty_store) = (None, process_start 0 empty_store)"
  using isPrivateIP_blocks [of 172 31 255 254 "Some ''172.31.255.254''" "quiet_env empty_feed"
      "process_start 0 empty_store"]
  by (simp add: dotted_def octet_def digit_def)

lemma selectUser_frame:
  assumes "selectUser env userId w = (r, w1)"
  shows "db w1 = db w"
  using assms
  by (auto simp: selectUser_def store_call_def emit_def split: option.splits list.splits)

lemma selectUser_row:
  assumes "selectUser env userId w = (Inr currentUser, w1)"
  shows "\<forall>row\<in>set (id_users (db w)). id_users_row.user_id row = userId \<longrightarrow>
           column_of c currentUser = column_of c row"
proof -
  from assms obtain r where f: "filter (\<lambda>r. id_users_row.user_id r = userId) (id_users (db w)) = [r]"
    and cu: "currentUser = enrichment.truncate r"
    by (auto simp: selectUser_def store_call_def emit_def split: option.splits list.splits)
  have "row = r" if "row \<in> set (id_users (db w))" "id_users_row.user_id row = userId" for row
  proof -
    from that have "row \<in> set (filter (\<lambda>r. id_users_row.user_id r = userId) (id_users (db w)))"
      by simp
    with f show ?thesis by simp
  qed
  moreover have "column_of c (enrichment.truncate r) = column_of c r"
    by (cases c) (simp_all add: enrichment.truncate_def)
  ultimately show ?thesis using cu by auto
qed

lemma column_of_applyUpdates:
  "column_of c (applyUpdates u r) = (case column_of c u of None \<Rightarrow> column_of c r | Some v \<Rightarrow> Some v)"
  by (cases c) (simp_all add: applyUpdates_def split: option.splits)

lemma updateUser_rows:
  assumes "updateUser env userId u w = (r, w1)"
  shows "length (id_users (db w1)) = length (id_users (db w))"
    and "k < length (id_users (db w)) \<Longrightarrow>
           id_users (db w1) ! k = id_users (db w) ! k \<or>
           (id_users_row.user_id (id_users (db w) ! k) = userId \<and>
            id_users (db w1) ! k = applyUpdates u (id_users (db w) ! k))"
  using assms
  by (auto simp: updateUser_def store_call_def emit_def split: option.splits if_splits)

lemma enrichUser_first_writer_wins_aux:
  assumes run: "enrichUser env userId geolocationData w = (success, w')"
    and k: "k < length (id_users (db w))"
  shows "length (id_users (db w')) = length (id_users (db w)) \<and>
         (truthy (column_of c (id_users (db w) ! k)) \<longrightarrow>
            column_of c (id_users (db w') ! k) = column_of c (id_users (db w) ! k)) \<and>
         (column_of c (id_users (db w') ! k) \<noteq> column_of c (id_users (db w) ! k) \<longrightarrow>
            id_users_row.user_id (id_users (db w) ! k) = userId \<and>
            \<not> truthy (column_of c (id_users (db w) ! k)) \<and>
            truthy (candidate c geolocationData) \<and>
            column_of c (id_users (db w') ! k) = candidate c geolocationData)"
proof (cases "db w' = db w")
  case True
  then show ?thesis by simp
next
  case False
  from run False obtain g loc where geo: "geolocationData = Some g" "geo_body.location g = Some loc"
    by (auto simp: enrichUser_def split: option.splits)
  define updates where "updates =
     \<lparr>enrichment.country_name_official = present (location.country_name_official loc),
      state = present (state_prov loc),
      enrichment.city = present (location.city loc),
      enrichment.district = present (location.district loc),
      country_code = present (country_code2 loc)\<rparr>"
  have upd: "column_of c updates = present (subfield c loc)"
    by (cases c) (simp_all add: updates_def)
  obtain r1 w1 where sel: "selectUser env userId w = (r1, w1)"
    by (cases "selectUser env userId w")
  note f1 = selectUser_frame [OF sel]
  from run False geo sel f1 obtain currentUser where cu: "r1 = Inr currentUser"
    by (auto simp: enrichUser_def Let_def updates_def [symmetric] split: if_splits sum.splits)
  define finalUpdates where "finalUpdates =
     \<lparr>enrichment.country_name_official =
        (if truthy (enrichment.country_name_official updates) \<and>
            \<not> truthy (enrichment.country_name_official currentUser)
         then enrichment.country_name_official updates else None),
      state = (if truthy (state updates) \<and> \<not> truthy (state currentUser) then state updates else None),
      enrichment.city =
        (if truthy (enrichment.city updates) \<and> \<not> truthy (enrichment.city currentUser)
         then enrichment.city updates else None),
      enrichment.district =
        (if truthy (enrichment.district updates) \<and> \<not> truthy (enrichment.district currentUser)
         then enrichment.district updates else None),
      country_code =
        (if truthy (country_code updates) \<and> \<not> truthy (country_code currentUser)
         then country_code updates else None)\<rparr>"
  have fin: "column_of c finalUpdates =
      (if truthy (column_of c updates) \<and> \<not> truthy (column_of c currentUser)
       then column_of c updates else None)"
    by (cases c) (simp_all add: finalUpdates_def)
  obtain r2 where up: "updateUser env userId finalUpdates w1 = (r2, w')"
    using run False geo sel cu f1
    by (auto simp: enrichUser_def Let_def updates_def [symmetric] finalUpdates_def [symmetric]
        split: if_splits option.splits prod.splits)
  have k1: "k < length (id_users (db w1))" using k f1 by simp
  note rows = updateUser_rows [OF up]
  let ?row = "id_users (db w) ! k"
  let ?row' = "id_users (db w') ! k"
  have len: "length (id_users (db w')) = length (id_users (db w))" using rows(1) f1 by simp
  from rows(2) [OF k1] f1 consider "?row' = ?row"
    | "id_users_row.user_id ?row = userId" "?row' = applyUpdates finalUpdates ?row" by auto
  then have "(truthy (column_of c ?row) \<longrightarrow> column_of c ?row' = column_of c ?row) \<and>
         (column_of c ?row' \<noteq> column_of c ?row \<longrightarrow>
            id_users_row.user_id ?row = userId \<and> \<not> truthy (column_of c ?row) \<and>
            truthy (candidate c geolocationData) \<and>
            column_of c ?row' = candidate c geolocationData)"
  proof cases
    case 1
    then show ?thesis by simp
  next
    case 2
    have "?row \<in> set (id_users (db w))" using k by simp
    with selectUser_row [OF sel [unfolded cu], of c] 2(1)
    have same: "column_of c currentUser = column_of c ?row" by blast
    have cand: "candidate c geolocationData = subfield c loc" by (simp add: candidate_def geo)
    show ?thesis
      unfolding 2(2) column_of_applyUpdates fin upd same cand using 2(1)
      by (auto simp: present_def truthy_def split: option.splits)
  qed
  with len show ?thesis by blast
qed


lemma all_columns_complete: "c \<in> set all_columns"
  by (cases c) (simp_all add: all_columns_def)

lemma no_empty_columns_set:
  "no_empty_columns st \<longleftrightarrow> (\<forall>row\<in>set (id_users st). \<forall>c. column_of c row \<noteq> Some [])"
  by (auto simp: no_empty_columns_def list_all_iff all_columns_complete)

lemma no_empty_columns_iff:
  "no_empty_columns st \<longleftrightarrow>
     (\<forall>k<length (id_users st). \<forall>c. column_of c (id_users st ! k) \<noteq> Some [])"
  unfolding no_empty_columns_set by (simp add: all_set_conv_all_nth)

lemma toDbUser_columns: "column_of c (toDbUser now user) = None"
  by (cases c) (simp_all add: toDbUser_def)

lemma set_upsert_ignoreDuplicates:
  "set (upsert_ignoreDuplicates tbl rows) \<subseteq> set tbl \<union> set rows"
proof (induction rows arbitrary: tbl)
  case Nil
  show ?case by simp
next
  case (Cons r rs)
  let ?tbl = "if id_users_row.user_id r \<in> set (map id_users_row.user_id tbl) then tbl else tbl @ [r]"
  have "set (upsert_ignoreDuplicates tbl (r # rs)) \<subseteq> set ?tbl \<union> set rs"
    using Cons.IH [of ?tbl] by simp
  also have "\<dots> \<subseteq> set tbl \<union> set (r # rs)" by auto
  finally show ?case .
qed

lemma insertUsers_table:
  "id_users (db (snd (insertUsers env arg w))) = id_users (db w) \<or>
   (\<exists>us. id_users (db (snd (insertUsers env arg w))) =
      upsert_ignoreDuplicates (id_users (db w)) (map (toDbUser (clock w)) us))"
  by (cases "db_fault env (n_db w)")
    (auto simp: insertUsers_def insertUsers_try_def store_call_def emit_def Let_def
      split: option.splits)

lemma no_empty_columns_insertUsers:
  assumes "no_empty_columns (db w)"
  shows "no_empty_columns (db (snd (insertUsers env arg w)))"
  using insertUsers_table [of env arg w]
proof
  assume "id_users (db (snd (insertUsers env arg w))) = id_users (db w)"
  with assms show ?thesis by (simp add: no_empty_columns_def)
next
  assume "\<exists>us. id_users (db (snd (insertUsers env arg w))) =
      upsert_ignoreDuplicates (id_users (db w)) (map (toDbUser (clock w)) us)"
  then obtain us where tbl: "id_users (db (snd (insertUsers env arg w))) =
      upsert_ignoreDuplicates (id_users (db w)) (map (toDbUser (clock w)) us)" by blast
  have "column_of c row \<noteq> Some []"
    if "row \<in> set (id_users (db (snd (insertUsers env arg w))))" for row c
  proof -
    from that tbl set_upsert_ignoreDuplicates [of "id_users (db w)" "map (toDbUser (clock w)) us"]
    have "row \<in> set (id_users (db w)) \<or> row \<in> set (map (toDbUser (clock w)) us)" by auto
    then show ?thesis
    proof
      assume "row \<in> set (id_users (db w))"
      with assms show ?thesis by (simp add: no_empty_columns_set)
    next
      assume "row \<in> set (map (toDbUser (clock w)) us)"
      then obtain user where "row = toDbUser (clock w) user" by auto
      then show ?thesis by (simp add: toDbUser_columns)
    qed
  qed
  then show ?thesis by (simp add: no_empty_columns_set)
qed

lemma no_empty_columns_updateCheckpoint:
  "no_empty_columns (db w) \<Longrightarrow> no_empty_columns (db (snd (updateCheckpoint env uid w)))"
  by (cases "db_fault env (n_db w)")
    (simp_all add: no_empty_columns_def updateCheckpoint_def store_call_def emit_def Let_def)

lemma no_empty_columns_enrichUser:
  assumes "no_empty_columns (db w)"
  shows "no_empty_columns (db (snd (enrichUser env userId g w)))"
proof -
  let ?R = "enrichUser env userId g w"
  have run: "?R = (fst ?R, snd ?R)" by simp
  have "column_of c (id_users (db (snd ?R)) ! k) \<noteq> Some []"
    if k: "k < length (id_users (db (snd ?R)))" for k c
  proof -
    have len: "length (id_users (db (snd ?R))) = length (id_users (db w))"
      using quiet_step_enrichUser [OF run] by (simp add: quiet_step_def)
    with k have k': "k < length (id_users (db w))" by simp
    from enrichUser_first_writer_wins_aux [OF run k', of c]
    have ch: "column_of c (id_users (db (snd ?R)) ! k) \<noteq> column_of c (id_users (db w) ! k) \<longrightarrow>
        truthy (candidate c g) \<and> column_of c (id_users (db (snd ?R)) ! k) = candidate c g"
      by blast
    from assms k' have "column_of c (id_users (db w) ! k) \<noteq> Some []"
      by (simp add: no_empty_columns_iff)
    with ch show ?thesis by (auto simp: truthy_def)
  qed
  then show ?thesis by (simp add: no_empty_columns_iff)
qed

lemma produced_no_empty_columns: "produced st \<Longrightarrow> no_empty_columns st"
proof (induction rule: produced.induct)
  case (start st)
  then show ?case by (simp add: no_empty_columns_def)
next
  case (sync_upsert w env arg)
  from sync_upsert.IH show ?case by (rule no_empty_columns_insertUsers)
next
  case (checkpoint w env uid)
  from checkpoint.IH show ?case by (rule no_empty_columns_updateCheckpoint)
next
  case (enrichment w env userId g)
  from enrichment.IH show ?case by (rule no_empty_columns_enrichUser)
qed


text \<open>
  C4. First writer wins. The user table is written by \<^verbatim>\<open>insertUsers\<close>, which leaves the
  enrichment columns null, and by \<^verbatim>\<open>enrichUser\<close>, which writes truthy candidates only,
  so no enrichment column ever holds the empty string (\<open>produced_no_empty_columns\<close>). On
  such a table, for any call of \<^verbatim>\<open>enrichUser\<close>, any row and any of the five enrichment
  columns: the table keeps its length; a column that was not null before the call holds
  the same value after it; a column whose value has changed belongs to the user's row, was
  null before, and now holds the candidate of the response, which exists; and again no
  column holds the empty string.
\<close>

theorem enrichUser_first_writer_wins:
  assumes "enrichUser env userId geolocationData w = (success, w')"
    and "k < length (id_users (db w))"
    and "no_empty_columns (db w)"
  shows "length (id_users (db w')) = length (id_users (db w)) \<and>
         (column_of c (id_users (db w) ! k) \<noteq> None \<longrightarrow>
            column_of c (id_users (db w') ! k) = column_of c (id_users (db w) ! k)) \<and>
         (column_of c (id_users (db w') ! k) \<noteq> column_of c (id_users (db w) ! k) \<longrightarrow>
            id_users_row.user_id (id_users (db w) ! k) = userId \<and>
            column_of c (id_users (db w) ! k) = None \<and>
            candidate c geolocationData \<noteq> None \<and>
            column_of c (id_users (db w') ! k) = candidate c geolocationData) \<and>
         no_empty_columns (db w')"
proof -
  from assms(2,3) have clean: "column_of c (id_users (db w) ! k) \<noteq> Some []"
    by (simp add: no_empty_columns_iff)
  then have tr: "truthy (column_of c (id_users (db w) ! k)) \<longleftrightarrow>
      column_of c (id_users (db w) ! k) \<noteq> None"
    by (cases "column_of c (id_users (db w) ! k)") (simp_all add: truthy_def)
  have "w' = snd (enrichUser env userId geolocationData w)" using assms(1) by simp
  with no_empty_columns_enrichUser [OF assms(3), of env userId geolocationData]
  have inv: "no_empty_columns (db w')" by simp
  from enrichUser_first_writer_wins_aux [OF assms(1,2), of c] tr inv show ?thesis
    by (auto simp: truthy_def)
qed

lemma ca_world_state: "map state (id_users (db ca_world)) = [Some ''CA'']"
  by (simp add: ca_world_def geo_CA_def enrichUser_def selectUser_def updateUser_def
      applyUpdates_def insertUsers_def insertUsers_try_def toDbUser_def mk_user_def
      store_call_def emit_def present_def truthy_def no_keys_def quiet_env_def
      process_start_def empty_store_def enrichment.truncate_def Let_def)

theorem enrichUser_first_writer_wins_witness:
  "produced (db ca_world) \<and>
   map state (id_users (db ca_world)) = [Some ''CA''] \<and>
   candidate State geo_NY = Some ''NY'' \<and>
   state (id_users (db (snd (enrichUser (quiet_env empty_feed) ''u1'' geo_NY ca_world))) ! 0) =
     Some ''CA''"
proof -
  let ?R = "enrichUser (quiet_env empty_feed) ''u1'' geo_NY ca_world"
  have p: "produced (db ca_world)"
    unfolding ca_world_def
    by (intro produced.enrichment produced.sync_upsert produced.start) (simp add: empty_store_def)
  have run: "?R = (fst ?R, snd ?R)" by simp
  have len: "length (id_users (db ca_world)) = 1"
    using ca_world_state by (metis length_map length_Cons list.size(3) One_nat_def)
  then have k: "0 < length (id_users (db ca_world))" by simp
  have before: "column_of State (id_users (db ca_world) ! 0) = Some ''CA''"
    using ca_world_state k by (metis column_of.simps(2) nth_Cons_0 nth_map)
  have cand: "candidate State geo_NY = Some ''NY''" by (simp add: candidate_def geo_NY_def)
  from enrichUser_first_writer_wins [OF run k produced_no_empty_columns [OF p], of State] before
  have "column_of State (id_users (db (snd ?R)) ! 0) = Some ''CA''" by simp
  with p ca_world_state cand show ?thesis by simp
qed

lemma enrichUsers_loop_calls:
  assumes "0 < batchSize"
  shows "\<exists>m lastr evs.
           trace (snd (enrichUsers_loop env batchSize offset tp te w)) = trace w @ evs \<and>
           selector_calls evs =
             map (\<lambda>j. (offset + j * batchSize, batchSize, Some batchSize)) [0..<m] @
               [(offset + m * batchSize, batchSize, lastr)] \<and>
           (case lastr of
              None \<Rightarrow> (\<exists>e. fst (enrichUsers_loop env batchSize offset tp te w) = Inl e)
            | Some n \<Rightarrow> n < batchSize \<and>
                (\<exists>te'. fst (enrichUsers_loop env batchSize offset tp te w) =
                         Inr (tp + m * batchSize + n, te')))"
  using assms
proof (induction env batchSize offset tp te w rule: enrichUsers_loop.induct)
  case (1 env batchSize offset tp te w)
  obtain r w1 where run: "processEnrichmentBatch env batchSize offset w = (r, w1)"
    by (cases "processEnrichmentBatch env batchSize offset w")
  from processEnrichmentBatch_effect [OF run] obtain rows evs1 where
    tr1: "trace w1 = trace w @ evs1" and sc1: "selector_calls evs1 = [(offset, batchSize, rows)]"
    and res: "case r of Inl e \<Rightarrow> rows = None
             | Inr result \<Rightarrow>
                 (\<exists>n. rows = Some n \<and> processed result = n \<and> n \<le> batchSize \<and>
                      (0 < n \<longrightarrow> offset + n \<le> length (id_users (db w))) \<and>
                      hasMore result = (n = batchSize \<and> 0 < n))"
    by blast
  let ?L = "enrichUsers_loop env batchSize offset tp te w"
  show ?case
  proof (cases r)
    case (Inl e)
    with run have L: "?L = (Inl e, w1)" by (subst enrichUsers_loop.simps) simp
    from Inl res have "rows = None" by simp
    with L tr1 sc1 show ?thesis
      by (intro exI [of _ 0] exI [of _ None] exI [of _ evs1]) simp
  next
    case (Inr result)
    with res have rows: "rows = Some (processed result)"
      and le: "processed result \<le> batchSize"
      and hm: "hasMore result = (processed result = batchSize \<and> 0 < processed result)"
      by auto
    show ?thesis
    proof (cases "processed result < batchSize")
      case True
      with run Inr have L: "?L = (Inr (tp + processed result, te + enriched result), w1)"
        by (subst enrichUsers_loop.simps) simp
      with True rows tr1 sc1 show ?thesis
        by (intro exI [of _ 0] exI [of _ "Some (processed result)"] exI [of _ evs1]) simp
    next
      case False
      with le have full: "processed result = batchSize" by simp
      with hm "1.prems" have more: "hasMore result" by simp
      let ?w2 = "sleep env 500 w1"
      let ?R = "enrichUsers_loop env batchSize (offset + batchSize) (tp + processed result)
          (te + enriched result) ?w2"
      from run Inr False more have L: "?L = ?R" by (subst enrichUsers_loop.simps) simp
      have cond: "(if processed result < batchSize then False else hasMore result)"
        using False more by simp
      from "1.IH" [OF run [symmetric] Inr cond "1.prems"]
      obtain m lastr evs2 where tr2: "trace (snd ?R) = trace ?w2 @ evs2"
        and sc2: "selector_calls evs2 =
             map (\<lambda>j. (offset + batchSize + j * batchSize, batchSize, Some batchSize)) [0..<m] @
               [(offset + batchSize + m * batchSize, batchSize, lastr)]"
        and fin: "case lastr of
              None \<Rightarrow> (\<exists>e. fst ?R = Inl e)
            | Some n \<Rightarrow> n < batchSize \<and>
                (\<exists>te'. fst ?R = Inr (tp + processed result + m * batchSize + n, te'))"
        by blast
      have "trace (snd ?L) = trace w @ (evs1 @ evs2)"
        using L tr1 tr2 by (simp add: sleep_def)
      moreover have "selector_calls (evs1 @ evs2) =
             map (\<lambda>j. (offset + j * batchSize, batchSize, Some batchSize)) [0..<Suc m] @
               [(offset + Suc m * batchSize, batchSize, lastr)]"
        using sc1 sc2 rows full
        by (simp add: map_upt_Suc_shift add.assoc add.commute del: upt_Suc)
      moreover have "case lastr of
              None \<Rightarrow> (\<exists>e. fst ?L = Inl e)
            | Some n \<Rightarrow> n < batchSize \<and>
                (\<exists>te'. fst ?L = Inr (tp + Suc m * batchSize + n, te'))"
        using fin full unfolding L by (auto simp: add.assoc split: option.splits)
      ultimately show ?thesis by blast
    qed
  qed
qed

text \<open>
  C7. For a batch size \<open>B > 0\<close>, the selector queries of a run of \<^verbatim>\<open>enrichUsers\<close> are made
  at the offsets 0, B, 2B, ..., mB, in this order and each once, for some m: the offset only
  grows. Each of the first m queries returned B rows; the last one returned fewer than B
  rows, or failed. So the run ends right after the first batch of fewer than B records,
  with no selector query after it, and then returns m * B + n as the number processed,
  where n is the size of the last batch; when the last query failed the run throws.
\<close>

theorem enrichUsers_offsets:
  assumes "0 < batchSize"
  shows "\<exists>m lastr.
           selector_calls (new_events w (snd (enrichUsers env batchSize w))) =
             map (\<lambda>j. (j * batchSize, batchSize, Some batchSize)) [0..<m] @
               [(m * batchSize, batchSize, lastr)] \<and>
           (case lastr of
              None \<Rightarrow> (\<exists>e. fst (enrichUsers env batchSize w) = Inl e)
            | Some n \<Rightarrow> n < batchSize \<and>
                (\<exists>te. fst (enrichUsers env batchSize w) = Inr (m * batchSize + n, te)))"
proof -
  from enrichUsers_loop_calls [OF assms, of env 0 0 0 w]
  have "\<exists>m lastr evs.
      trace (snd (enrichUsers env batchSize w)) = trace w @ evs \<and>
      selector_calls evs =
        map (\<lambda>j. (j * batchSize, batchSize, Some batchSize)) [0..<m] @
          [(m * batchSize, batchSize, lastr)] \<and>
      (case lastr of
         None \<Rightarrow> (\<exists>e. fst (enrichUsers env batchSize w) = Inl e)
       | Some n \<Rightarrow> n < batchSize \<and>
           (\<exists>te. fst (enrichUsers env batchSize w) = Inr (m * batchSize + n, te)))"
    unfolding enrichUsers_def by (simp cong: option.case_cong)
  then obtain m lastr evs where
    "trace (snd (enrichUsers env batchSize w)) = trace w @ evs"
    "selector_calls evs =
       map (\<lambda>j. (j * batchSize, batchSize, Some batchSize)) [0..<m] @
         [(m * batchSize, batchSize, lastr)]"
    "case lastr of
       None \<Rightarrow> (\<exists>e. fst (enrichUsers env batchSize w) = Inl e)
     | Some n \<Rightarrow> n < batchSize \<and>
         (\<exists>te. fst (enrichUsers env batchSize w) = Inr (m * batchSize + n, te))"
    by blast
  then show ?thesis by (intro exI [of _ m] exI [of _ lastr]) simp
qed

lemma sample_enrichUsers_run:
  "selector_calls (trace (snd (enrichUsers (quiet_env empty_feed) 1
      (process_start 0 (one_user_store None))))) = [(0, 1, Some 1), (1, 1, Some 0)] \<and>
   fst (enrichUsers (quiet_env empty_feed) 1 (process_start 0 (one_user_store None))) = Inr (1, 0)"
  by (simp add: enrichUsers_def enrichUsers_loop.simps processEnrichmentBatch_def
      getUsersNeedingEnrichment_def store_call_def
      emit_def needs_enrichment_def one_user_store_def quiet_env_def process_start_def
      fetchGeolocationData_def truthy_def isPrivateIP_def privateRanges_def rx_test_def
      sleep_def Let_def)

theorem enrichUsers_offsets_witness:
  "(0::nat) < 1 \<and>
   selector_calls (new_events (process_start 0 (one_user_store None))
     (snd (enrichUsers (quiet_env empty_feed) 1 (process_start 0 (one_user_store None))))) =
     [(0, 1, Some 1), (1, 1, Some 0)] \<and>
   fst (enrichUsers (quiet_env empty_feed) 1 (process_start 0 (one_user_store None))) = Inr (1, 0)"
  using enrichUsers_offsets [of 1 "process_start 0 (one_user_store None)" "quiet_env empty_feed"]
    sample_enrichUsers_run
  by simp

end
